theory Spec2Isabelle
  imports Main "HOL-Library.Multiset" "HOL-Library.AList" "HOL-Library.Char_ord"
    "HOL-Library.List_Lexorder"
begin

section \<open>JSON values, errors and log events\<close>

text \<open>
  Every value the program handles comes out of \<^verbatim>\<open>json.load\<close>. A JSON object is a Python
  dict: an association list whose first binding of a key is the effective one. Floating
  point numbers are left out.
\<close>

datatype json =
    JNull
  | JBool bool
  | JInt int
  | JStr string
  | JArr "json list"
  | JObj "(string \<times> json) list"

text \<open>The exceptions that the program raises or lets escape.\<close>

datatype error =
    KeyError
  | TypeError
  | ValueError
  | FileNotFoundError
  | OSError
  | SortingGroupDoesNotExist string

text \<open>
  One constructor for each call of \<^verbatim>\<open>logger\<close> in the source, with the arguments of the
  message.
\<close>

datatype log_entry =
    Error_malformed_object json
  | Warning_group_not_found string
  | Info_sorted_groups "string list"
  | Info_loaded_main
  | Info_no_custom_directory
  | Info_no_custom_files
  | Info_loaded_custom string
  | Info_order_not_found
  | Info_order_empty
  | Info_removed_groups "string set"
  | Info_new_groups "string set"
  | Error_restoring_backup
  | Info_recreated
  | Info_wrote_merged

type_synonym 'a logged = "(error + 'a) \<times> log_entry list"

definition prepend :: "log_entry list \<Rightarrow> 'a logged \<Rightarrow> 'a logged" where
  "prepend l r = (fst r, l @ snd r)"

section \<open>The ordering engine: \<^verbatim>\<open>CustomConfigSorter\<close>\<close>

record GroupOrderingDataItem =
  first_item_index :: "nat option"
  last_item_index :: "nat option"

definition is_found :: "GroupOrderingDataItem \<Rightarrow> bool" where
  "is_found item = (first_item_index item \<noteq> None \<and> last_item_index item \<noteq> None)"

text \<open>\<^verbatim>\<open>data_obj["group"]\<close>: a dict without the key raises KeyError, a value that is not a
  dict raises TypeError.\<close>

fun subscript_group :: "json \<Rightarrow> error + json" where
  "subscript_group (JObj kvs) =
     (case map_of kvs ''group'' of None \<Rightarrow> Inl KeyError | Some v \<Rightarrow> Inr v)"
| "subscript_group _ = Inl TypeError"

text \<open>The loop of \<^verbatim>\<open>_collect_group_ordering_data_item\<close> over \<^verbatim>\<open>enumerate(self._custom_config)\<close>;
  only a KeyError is logged before it is raised again.\<close>

fun collect_loop ::
  "json list \<Rightarrow> string \<Rightarrow> nat \<Rightarrow> GroupOrderingDataItem \<Rightarrow> GroupOrderingDataItem logged" where
  "collect_loop [] group_name i item = (Inr item, [])"
| "collect_loop (data_obj # rest) group_name i item =
     (case subscript_group data_obj of
        Inl KeyError \<Rightarrow> (Inl KeyError, [Error_malformed_object data_obj])
      | Inl e \<Rightarrow> (Inl e, [])
      | Inr data_obj_group \<Rightarrow>
          (let item1 = (if first_item_index item = None \<and> data_obj_group = JStr group_name
                        then item\<lparr>first_item_index := Some i\<rparr> else item);
               item2 = (if data_obj_group = JStr group_name
                        then item1\<lparr>last_item_index := Some i\<rparr> else item1)
           in collect_loop rest group_name (Suc i) item2))"

definition collect_group_ordering_data_item ::
  "json list \<Rightarrow> string \<Rightarrow> GroupOrderingDataItem logged" where
  "collect_group_ordering_data_item custom_config group_name =
     (case collect_loop custom_config group_name 0
             \<lparr>first_item_index = None, last_item_index = None\<rparr> of
        (Inl e, l) \<Rightarrow> (Inl e, l)
      | (Inr item, l) \<Rightarrow>
          if \<not> is_found item
          then (Inl (SortingGroupDoesNotExist group_name),
                l @ [Warning_group_not_found group_name])
          else (Inr item, l))"

text \<open>Python's \<^verbatim>\<open>xs[a:b]\<close> for indices that are not negative.\<close>

definition slice :: "nat \<Rightarrow> nat \<Rightarrow> 'a list \<Rightarrow> 'a list" where
  "slice a b xs = take (b - a) (drop a xs)"

text \<open>
  \<^verbatim>\<open>_pop_group_2\<close> returns the extracted span together with the new value of
  \<^verbatim>\<open>self._custom_config\<close>; when the lookup raises, the attribute keeps its value. The
  branch for an index that is None cannot be reached after the \<^verbatim>\<open>is_found\<close> test
  (\<^verbatim>\<open>None + 1\<close> would be a TypeError).
\<close>

definition pop_group_2 :: "json list \<Rightarrow> string \<Rightarrow> (json list \<times> json list) logged" where
  "pop_group_2 custom_config group_name_2 =
     (case collect_group_ordering_data_item custom_config group_name_2 of
        (Inl e, l) \<Rightarrow> (Inl e, l)
      | (Inr item, l) \<Rightarrow>
          (case (first_item_index item, last_item_index item) of
             (Some first_i, Some last_i) \<Rightarrow>
               (let before_group_2 = take first_i custom_config;
                    group_2 = slice first_i (last_i + 1) custom_config;
                    after_group_2 = drop (last_i + 1) custom_config
                in (Inr (group_2, before_group_2 @ after_group_2), l))
           | _ \<Rightarrow> (Inl TypeError, l)))"

definition insert_group_2_after_group_1 ::
  "json list \<Rightarrow> string \<Rightarrow> json list \<Rightarrow> (json list) logged" where
  "insert_group_2_after_group_1 custom_config group_name_1 group_2 =
     (case collect_group_ordering_data_item custom_config group_name_1 of
        (Inl e, l) \<Rightarrow> (Inl e, l)
      | (Inr item, l) \<Rightarrow>
          (case last_item_index item of
             Some last_i \<Rightarrow>
               (let before_group_2 = take (last_i + 1) custom_config;
                    after_group_2 = drop (last_i + 1) custom_config
                in (Inr (before_group_2 @ group_2 @ after_group_2), l))
           | None \<Rightarrow> (Inl TypeError, l)))"

text \<open>
  The loop of \<^verbatim>\<open>get_sorted_custom_config\<close> over the adjacent pairs of the specification.
  The state is \<^verbatim>\<open>self._custom_config\<close> and \<^verbatim>\<open>missing_groups\<close>. Only
  \<^verbatim>\<open>SortingGroupDoesNotExist\<close> is caught; when it comes from the second lookup, the
  sequence has already lost the span that \<^verbatim>\<open>_pop_group_2\<close> extracted.
\<close>

fun sort_pairs ::
  "(string \<times> string) list \<Rightarrow> json list \<Rightarrow> string set \<Rightarrow> (json list \<times> string set) logged" where
  "sort_pairs [] custom_config missing_groups = (Inr (custom_config, missing_groups), [])"
| "sort_pairs ((group_name_1, group_name_2) # pairs) custom_config missing_groups =
     (case pop_group_2 custom_config group_name_2 of
        (Inl (SortingGroupDoesNotExist g), l) \<Rightarrow>
          prepend l (sort_pairs pairs custom_config (insert g missing_groups))
      | (Inl e, l) \<Rightarrow> (Inl e, l)
      | (Inr (group_2, custom_config1), l) \<Rightarrow>
          (case insert_group_2_after_group_1 custom_config1 group_name_1 group_2 of
             (Inl (SortingGroupDoesNotExist g), l') \<Rightarrow>
               prepend (l @ l') (sort_pairs pairs custom_config1 (insert g missing_groups))
           | (Inl e, l') \<Rightarrow> (Inl e, l @ l')
           | (Inr custom_config2, l') \<Rightarrow>
               prepend (l @ l') (sort_pairs pairs custom_config2 missing_groups)))"

definition get_sorted_custom_config :: "json list \<Rightarrow> string list \<Rightarrow> (json list) logged" where
  "get_sorted_custom_config custom_config ordering_data =
     (case sort_pairs (zip ordering_data (tl ordering_data)) custom_config {} of
        (Inl e, l) \<Rightarrow> (Inl e, l)
      | (Inr (sorted_config, missing_groups), l) \<Rightarrow>
          (Inr sorted_config,
           l @ [Info_sorted_groups
                  [g \<leftarrow> ordering_data. g \<in> set ordering_data - missing_groups]]))"

section \<open>The configuration tree on disk\<close>

text \<open>
  The tree below the theme root, as far as the program reads or writes it. A file holds
  the JSON document that \<^verbatim>\<open>json.load\<close> returns for it; a directory is a flat list of
  named files. The order manifest has the type that the source declares for it
  (\<^verbatim>\<open>OrderingDataType = list[str]\<close>). \<^verbatim>\<open>None\<close> stands for a path that does not exist.
\<close>

type_synonym directory = "(string \<times> json) list"

record filesystem =
  main_json :: "json option"
  groups_directory :: "directory option"
  order_json :: "string list option"
  config_json :: "json option"

text \<open>The attributes of a \<^verbatim>\<open>JsonCompiler\<close> that \<^verbatim>\<open>run\<close> assigns.\<close>

record JsonCompiler =
  ordering_data :: "string list"
  main_config :: "(string \<times> json) list"
  custom_config :: "json list"

definition new_JsonCompiler :: JsonCompiler where
  "new_JsonCompiler = \<lparr>ordering_data = [], main_config = [], custom_config = []\<rparr>"

definition load_main_config :: "JsonCompiler \<Rightarrow> filesystem \<Rightarrow> JsonCompiler logged" where
  "load_main_config self fs =
     (case main_json fs of
        None \<Rightarrow> (Inl FileNotFoundError, [])
      | Some (JObj kvs) \<Rightarrow> (Inr (self\<lparr>main_config := kvs\<rparr>), [Info_loaded_main])
      | Some _ \<Rightarrow> (Inl TypeError, []))"

text \<open>\<^verbatim>\<open>glob("*.json")\<close>: the names that end in \<^verbatim>\<open>.json\<close>.\<close>

definition is_json_name :: "string \<Rightarrow> bool" where
  "is_json_name name = (5 \<le> length name \<and> drop (length name - 5) name = ''.json'')"

fun load_custom_files :: "directory \<Rightarrow> json list \<Rightarrow> (json list) logged" where
  "load_custom_files [] custom = (Inr custom, [])"
| "load_custom_files ((name, data) # files) custom =
     (case data of
        JArr records \<Rightarrow>
          prepend [Info_loaded_custom name] (load_custom_files files (custom @ records))
      | _ \<Rightarrow> (Inl TypeError, []))"

definition load_custom_config :: "JsonCompiler \<Rightarrow> filesystem \<Rightarrow> JsonCompiler logged" where
  "load_custom_config self fs =
     (case groups_directory fs of
        None \<Rightarrow> (Inr self, [Info_no_custom_directory])
      | Some dir \<Rightarrow>
          (let custom_config_files = sort_key fst (filter (\<lambda>f. is_json_name (fst f)) dir)
           in if custom_config_files = [] then (Inr self, [Info_no_custom_files])
              else (case load_custom_files custom_config_files (custom_config self) of
                      (Inl e, l) \<Rightarrow> (Inl e, l)
                    | (Inr custom, l) \<Rightarrow> (Inr (self\<lparr>custom_config := custom\<rparr>), l))))"

definition sort_custom_config :: "JsonCompiler \<Rightarrow> filesystem \<Rightarrow> JsonCompiler logged" where
  "sort_custom_config self fs =
     (case order_json fs of
        None \<Rightarrow> (Inr self, [Info_order_not_found])
      | Some names \<Rightarrow>
          (let self1 = self\<lparr>ordering_data := names\<rparr>
           in if length names = 0 then (Inr self1, [Info_order_empty])
              else if length names < 2 then (Inl ValueError, [])
              else (case get_sorted_custom_config (custom_config self1) names of
                      (Inl e, l) \<Rightarrow> (Inl e, l)
                    | (Inr sorted_config, l) \<Rightarrow>
                        (Inr (self1\<lparr>custom_config := sorted_config\<rparr>), l))))"

section \<open>The fragment store rewriter\<close>

text \<open>A list or a dict is not hashable and cannot be a key of \<^verbatim>\<open>groups\<close>.\<close>

fun hashable :: "json \<Rightarrow> bool" where
  "hashable (JArr _) = False"
| "hashable (JObj _) = False"
| "hashable _ = True"

text \<open>
  \<^verbatim>\<open>groups[config_obj["group"]].append(config_obj)\<close> on a \<^verbatim>\<open>defaultdict(list)\<close>, which keeps
  its keys in the order of their first insertion.
\<close>

definition append_to_group ::
  "(json \<times> json list) list \<Rightarrow> json \<Rightarrow> json \<Rightarrow> (json \<times> json list) list" where
  "append_to_group groups k config_obj =
     (case map_of groups k of
        None \<Rightarrow> groups @ [(k, [config_obj])]
      | Some objs \<Rightarrow> AList.update k (objs @ [config_obj]) groups)"

fun partition_groups ::
  "json list \<Rightarrow> (json \<times> json list) list \<Rightarrow> error + (json \<times> json list) list" where
  "partition_groups [] groups = Inr groups"
| "partition_groups (config_obj # rest) groups =
     (case subscript_group config_obj of
        Inl e \<Rightarrow> Inl e
      | Inr k \<Rightarrow>
          if hashable k then partition_groups rest (append_to_group groups k config_obj)
          else Inl TypeError)"

text \<open>
  A group name can be the stem of a file name when it has no path separator and no NUL.
  With any other name the source opens a path outside the staging directory or fails
  in \<^verbatim>\<open>open\<close>; the model stops there with \<^verbatim>\<open>OSError\<close>, and the theorems about the store
  assume plain names.
\<close>

definition plain_stem :: "string \<Rightarrow> bool" where
  "plain_stem s = (CHR ''/'' \<notin> set s \<and> CHR 0x00 \<notin> set s)"

text \<open>
  The files of the staging directory, one for each group. For a key that is not a string
  the source writes a file named after \<^verbatim>\<open>str(key)\<close>; such a key is never in the order
  manifest, so the join of \<^verbatim>\<open>new_groups\<close> below raises TypeError and the staging
  directory is discarded: the model does not stage that file.
\<close>

fun stage_groups :: "(json \<times> json list) list \<Rightarrow> directory \<Rightarrow> error + directory" where
  "stage_groups [] dir = Inr dir"
| "stage_groups ((JStr s, group_obj) # rest) dir =
     (if plain_stem s then stage_groups rest (AList.update (s @ ''.json'') (JArr group_obj) dir)
      else Inl OSError)"
| "stage_groups ((_, group_obj) # rest) dir = stage_groups rest dir"

fun string_keys :: "(json \<times> json list) list \<Rightarrow> string list" where
  "string_keys [] = []"
| "string_keys ((JStr s, _) # rest) = s # string_keys rest"
| "string_keys (_ # rest) = string_keys rest"

fun is_JStr :: "json \<Rightarrow> bool" where
  "is_JStr (JStr _) = True"
| "is_JStr _ = False"

text \<open>
  An exception injected into the replacement of the live store (the body of the
  \<^verbatim>\<open>try\<close>): which of its three operations raises, and what the failed operation leaves
  at the live path. The operations of the handler and the cleanup of the temporary
  directory are taken to succeed.
\<close>

datatype fault =
    No_fault
  | Copy_manifest_fails "string list option"
  | Rmtree_fails "directory option"
  | Copytree_fails "directory option"

text \<open>The body of the \<^verbatim>\<open>try\<close>: manifest, then \<^verbatim>\<open>rmtree\<close> of the live groups directory if it
  exists, then \<^verbatim>\<open>copytree\<close> of the staged one.\<close>

definition replace_live_store ::
  "fault \<Rightarrow> string list \<Rightarrow> directory \<Rightarrow> filesystem \<Rightarrow> (error + unit) \<times> filesystem" where
  "replace_live_store flt manifest staged fs =
     (case flt of
        Copy_manifest_fails left \<Rightarrow> (Inl OSError, fs\<lparr>order_json := left\<rparr>)
      | _ \<Rightarrow>
          (let fs1 = fs\<lparr>order_json := Some manifest\<rparr>
           in case (flt, groups_directory fs1) of
                (Rmtree_fails left, Some _) \<Rightarrow> (Inl OSError, fs1\<lparr>groups_directory := left\<rparr>)
              | _ \<Rightarrow>
                  (let fs2 = fs1\<lparr>groups_directory := None\<rparr>
                   in case flt of
                        Copytree_fails left \<Rightarrow> (Inl OSError, fs2\<lparr>groups_directory := left\<rparr>)
                      | _ \<Rightarrow> (Inr (), fs2\<lparr>groups_directory := Some staged\<rparr>))))"

text \<open>The handler: the manifest and the groups directory come back from the backup.\<close>

definition restore_from_backup :: "string list \<Rightarrow> directory \<Rightarrow> filesystem \<Rightarrow> filesystem" where
  "restore_from_backup backup_order backup_groups fs =
     (let fs1 = fs\<lparr>order_json := Some backup_order\<rparr>;
          fs2 = (if groups_directory fs1 \<noteq> None then fs1\<lparr>groups_directory := None\<rparr> else fs1)
      in fs2\<lparr>groups_directory := Some backup_groups\<rparr>)"

definition recreate_custom_config_files ::
  "fault \<Rightarrow> JsonCompiler \<Rightarrow> filesystem \<Rightarrow> (error + unit) \<times> filesystem \<times> log_entry list" where
  "recreate_custom_config_files flt self fs =
     (case partition_groups (custom_config self) [] of
        Inl e \<Rightarrow> (Inl e, fs, [])
      | Inr groups \<Rightarrow>
          (case stage_groups groups [] of
             Inl e \<Rightarrow> (Inl e, fs, [])
           | Inr staged \<Rightarrow>
               (let removed_groups = set (ordering_data self) - set (string_keys groups);
                    l1 = (if removed_groups \<noteq> {} then [Info_removed_groups removed_groups] else []);
                    new_groups = set (string_keys groups) - set (ordering_data self)
                in if \<not> list_all is_JStr (map fst groups) then (Inl TypeError, fs, l1)
                   else
                     (let l2 = l1 @ (if new_groups \<noteq> {} then [Info_new_groups new_groups] else [])
                      in case order_json fs of
                           None \<Rightarrow> (Inl FileNotFoundError, fs, l2)
                         | Some backup_order \<Rightarrow>
                             (case groups_directory fs of
                                None \<Rightarrow> (Inl FileNotFoundError, fs, l2)
                              | Some backup_groups \<Rightarrow>
                                  (case replace_live_store flt (string_keys groups) staged fs of
                                     (Inl e, fs') \<Rightarrow>
                                       (Inl e, restore_from_backup backup_order backup_groups fs',
                                        l2 @ [Error_restoring_backup])
                                   | (Inr u, fs') \<Rightarrow> (Inr (), fs', l2 @ [Info_recreated])))))))"

section \<open>The merged document and the whole run\<close>

definition get_joined_main_and_custom_config :: "JsonCompiler \<Rightarrow> json" where
  "get_joined_main_and_custom_config self =
     JObj (AList.update ''customConfig'' (JArr (custom_config self)) (main_config self))"

definition replace_config_in_root :: "filesystem \<Rightarrow> json \<Rightarrow> filesystem \<times> log_entry list" where
  "replace_config_in_root fs config = (fs\<lparr>config_json := Some config\<rparr>, [Info_wrote_merged])"

definition run :: "fault \<Rightarrow> filesystem \<Rightarrow> (error + unit) \<times> filesystem \<times> log_entry list" where
  "run flt fs =
     (case load_main_config new_JsonCompiler fs of
        (Inl e, l1) \<Rightarrow> (Inl e, fs, l1)
      | (Inr self1, l1) \<Rightarrow>
          (case load_custom_config self1 fs of
             (Inl e, l2) \<Rightarrow> (Inl e, fs, l1 @ l2)
           | (Inr self2, l2) \<Rightarrow>
               (case sort_custom_config self2 fs of
                  (Inl e, l3) \<Rightarrow> (Inl e, fs, l1 @ l2 @ l3)
                | (Inr self3, l3) \<Rightarrow>
                    (case recreate_custom_config_files flt self3 fs of
                       (Inl e, fs', l4) \<Rightarrow> (Inl e, fs', l1 @ l2 @ l3 @ l4)
                     | (Inr u, fs', l4) \<Rightarrow>
                         (case replace_config_in_root fs'
                                 (get_joined_main_and_custom_config self3) of
                            (fs'', l5) \<Rightarrow> (Inr (), fs'', l1 @ l2 @ l3 @ l4 @ l5))))))"

section \<open>The ordering engine on a store of objects\<close>

text \<open>
  To speak about the caller's objects, the sequence and its records are placed in a
  store: an object is a record (with the JSON value it holds) or a list of addresses of
  records, and an address is an index of the store. The engine never updates a list or a
  dict in place: a slice and \<^verbatim>\<open>+\<close> build new lists, and \<^verbatim>\<open>self._custom_config = ...\<close> rebinds
  an attribute of the sorter, which is threaded here as the address it holds. So the only
  operation on the store is the allocation of a new object.
\<close>

type_synonym addr = nat

datatype pyobj = PyRecord json | PyList "addr list"

type_synonym heap = "pyobj list"

definition lookup :: "heap \<Rightarrow> addr \<Rightarrow> pyobj option" where
  "lookup h a = (if a < length h then Some (h ! a) else None)"

definition alloc :: "heap \<Rightarrow> pyobj \<Rightarrow> addr \<times> heap" where
  "alloc h obj = (length h, h @ [obj])"

definition elems :: "heap \<Rightarrow> addr \<Rightarrow> addr list" where
  "elems h a = (case lookup h a of Some (PyList rs) \<Rightarrow> rs | _ \<Rightarrow> [])"

definition record_value :: "heap \<Rightarrow> addr \<Rightarrow> json" where
  "record_value h r = (case lookup h r of Some (PyRecord v) \<Rightarrow> v | _ \<Rightarrow> JNull)"

text \<open>The sequence of record values that the list at an address denotes.\<close>

definition denote :: "heap \<Rightarrow> addr \<Rightarrow> json list" where
  "denote h a = map (record_value h) (elems h a)"

text \<open>\<^verbatim>\<open>copy.deepcopy\<close> returns an atomic value as it is and copies a dict or a list.\<close>

fun atomic :: "json \<Rightarrow> bool" where
  "atomic (JArr _) = False"
| "atomic (JObj _) = False"
| "atomic _ = True"

text \<open>
  The elements of the list, copied from left to right with the memo of \<^verbatim>\<open>deepcopy\<close>: an
  object met twice is copied once. The values inside a record are immutable in this
  model, so the copy of a record holds the same value. \<^verbatim>\<open>None\<close>: an element is not the
  address of a record.
\<close>

fun deepcopy_items ::
  "heap \<Rightarrow> (addr \<times> addr) list \<Rightarrow> addr list \<Rightarrow> (addr list \<times> heap) option" where
  "deepcopy_items h memo [] = Some ([], h)"
| "deepcopy_items h memo (r # rs) =
     (case map_of memo r of
        Some r' \<Rightarrow> map_option (\<lambda>(rs', h'). (r' # rs', h')) (deepcopy_items h memo rs)
      | None \<Rightarrow>
          (case lookup h r of
             Some (PyRecord v) \<Rightarrow>
               if atomic v
               then map_option (\<lambda>(rs', h'). (r # rs', h')) (deepcopy_items h memo rs)
               else (case alloc h (PyRecord v) of
                       (r', h1) \<Rightarrow>
                         map_option (\<lambda>(rs', h'). (r' # rs', h'))
                           (deepcopy_items h1 ((r, r') # memo) rs))
           | _ \<Rightarrow> None))"

definition deepcopy_list :: "heap \<Rightarrow> addr \<Rightarrow> (addr \<times> heap) option" where
  "deepcopy_list h a =
     (case lookup h a of
        Some (PyList rs) \<Rightarrow>
          (case deepcopy_items h [] rs of
             Some (rs', h1) \<Rightarrow> Some (alloc h1 (PyList rs'))
           | None \<Rightarrow> None)
      | _ \<Rightarrow> None)"

text \<open>\<^verbatim>\<open>xs[i:j]\<close> and \<^verbatim>\<open>xs + ys\<close> on lists of the store: each builds a new list.\<close>

definition py_slice :: "heap \<Rightarrow> addr \<Rightarrow> nat \<Rightarrow> nat \<Rightarrow> addr \<times> heap" where
  "py_slice h a i j = alloc h (PyList (slice i j (elems h a)))"

definition py_concat :: "heap \<Rightarrow> addr \<Rightarrow> addr \<Rightarrow> addr \<times> heap" where
  "py_concat h a b = alloc h (PyList (elems h a @ elems h b))"

text \<open>
  The methods of the sorter on the store. \<open>cc\<close> is the address in \<^verbatim>\<open>self._custom_config\<close>;
  a method returns the address it leaves there. The lookup only reads.
\<close>

definition pop_group_2_heap ::
  "heap \<Rightarrow> addr \<Rightarrow> string \<Rightarrow> (addr \<times> addr) logged \<times> heap" where
  "pop_group_2_heap h cc group_name_2 =
     (case collect_group_ordering_data_item (denote h cc) group_name_2 of
        (Inl e, l) \<Rightarrow> ((Inl e, l), h)
      | (Inr item, l) \<Rightarrow>
          (case (first_item_index item, last_item_index item) of
             (Some first_i, Some last_i) \<Rightarrow>
               (case py_slice h cc 0 first_i of (before_group_2, h1) \<Rightarrow>
                case py_slice h1 cc first_i (last_i + 1) of (group_2, h2) \<Rightarrow>
                case py_slice h2 cc (last_i + 1) (length (elems h2 cc)) of (after_group_2, h3) \<Rightarrow>
                case py_concat h3 before_group_2 after_group_2 of (cc', h4) \<Rightarrow>
                  ((Inr (group_2, cc'), l), h4))
           | _ \<Rightarrow> ((Inl TypeError, l), h)))"

definition insert_group_2_after_group_1_heap ::
  "heap \<Rightarrow> addr \<Rightarrow> string \<Rightarrow> addr \<Rightarrow> addr logged \<times> heap" where
  "insert_group_2_after_group_1_heap h cc group_name_1 group_2 =
     (case collect_group_ordering_data_item (denote h cc) group_name_1 of
        (Inl e, l) \<Rightarrow> ((Inl e, l), h)
      | (Inr item, l) \<Rightarrow>
          (case last_item_index item of
             Some last_i \<Rightarrow>
               (case py_slice h cc 0 (last_i + 1) of (before_group_2, h1) \<Rightarrow>
                case py_slice h1 cc (last_i + 1) (length (elems h1 cc)) of (after_group_2, h2) \<Rightarrow>
                case py_concat h2 before_group_2 group_2 of (tmp, h3) \<Rightarrow>
                case py_concat h3 tmp after_group_2 of (cc', h4) \<Rightarrow>
                  ((Inr cc', l), h4))
           | None \<Rightarrow> ((Inl TypeError, l), h)))"

fun sort_pairs_heap ::
  "(string \<times> string) list \<Rightarrow> heap \<Rightarrow> addr \<Rightarrow> string set \<Rightarrow>
     (addr \<times> string set) logged \<times> heap" where
  "sort_pairs_heap [] h cc missing_groups = ((Inr (cc, missing_groups), []), h)"
| "sort_pairs_heap ((group_name_1, group_name_2) # pairs) h cc missing_groups =
     (case pop_group_2_heap h cc group_name_2 of
        ((Inl (SortingGroupDoesNotExist g), l), h1) \<Rightarrow>
          (case sort_pairs_heap pairs h1 cc (insert g missing_groups) of
             (r, h') \<Rightarrow> (prepend l r, h'))
      | ((Inl e, l), h1) \<Rightarrow> ((Inl e, l), h1)
      | ((Inr (group_2, cc1), l), h1) \<Rightarrow>
          (case insert_group_2_after_group_1_heap h1 cc1 group_name_1 group_2 of
             ((Inl (SortingGroupDoesNotExist g), l'), h2) \<Rightarrow>
               (case sort_pairs_heap pairs h2 cc1 (insert g missing_groups) of
                  (r, h') \<Rightarrow> (prepend (l @ l') r, h'))
           | ((Inl e, l'), h2) \<Rightarrow> ((Inl e, l @ l'), h2)
           | ((Inr cc2, l'), h2) \<Rightarrow>
               (case sort_pairs_heap pairs h2 cc2 missing_groups of
                  (r, h') \<Rightarrow> (prepend (l @ l') r, h'))))"

text \<open>
  \<^verbatim>\<open>CustomConfigSorter(custom_config, ordering_data).get_sorted_custom_config()\<close>: the
  constructor copies the caller's sequence, the method returns the address of the sorted
  copy. \<^verbatim>\<open>None\<close>: the argument is not the address of a list of records.
\<close>

definition sorted_copy ::
  "heap \<Rightarrow> addr \<Rightarrow> string list \<Rightarrow> (addr logged \<times> heap) option" where
  "sorted_copy h caller_list names =
     (case deepcopy_list h caller_list of
        None \<Rightarrow> None
      | Some (cc, h1) \<Rightarrow>
          (case sort_pairs_heap (zip names (tl names)) h1 cc {} of
             ((Inl e, l), h') \<Rightarrow> Some ((Inl e, l), h')
           | ((Inr (cc', missing_groups), l), h') \<Rightarrow>
               Some ((Inr cc',
                      l @ [Info_sorted_groups [g \<leftarrow> names. g \<in> set names - missing_groups]]),
                     h')))"

text \<open>The object at the address is a list, and each of its elements is the address of a
  record.\<close>

definition list_of_records :: "heap \<Rightarrow> addr \<Rightarrow> bool" where
  "list_of_records h a =
     (case lookup h a of
        Some (PyList rs) \<Rightarrow>
          list_all (\<lambda>r. case lookup h r of Some (PyRecord v) \<Rightarrow> True | _ \<Rightarrow> False) rs
      | _ \<Rightarrow> False)"

text \<open>The object at the address is a record.\<close>

definition is_record :: "heap \<Rightarrow> addr \<Rightarrow> bool" where
  "is_record h r = (case lookup h r of Some (PyRecord v) \<Rightarrow> True | _ \<Rightarrow> False)"

section \<open>Predicates of the specification\<close>

text \<open>A record carries a \<^verbatim>\<open>group\<close> field when the subscript does not raise.\<close>

definition has_group_field :: "json \<Rightarrow> bool" where
  "has_group_field d = (case subscript_group d of Inl _ \<Rightarrow> False | Inr _ \<Rightarrow> True)"

text \<open>The test \<^verbatim>\<open>data_obj["group"] == group_name\<close> of the lookup.\<close>

definition in_group :: "string \<Rightarrow> json \<Rightarrow> bool" where
  "in_group g d = (subscript_group d = Inr (JStr g))"

text \<open>The records that satisfy \<open>p\<close> stand next to one another in \<open>xs\<close>.\<close>

definition one_span :: "('a \<Rightarrow> bool) \<Rightarrow> 'a list \<Rightarrow> bool" where
  "one_span p xs = (\<exists>A B. xs = A @ filter p xs @ B)"

text \<open>
  The records of group \<open>g\<close> occupy one contiguous span of \<open>xs\<close> (or there is none): the
  run of records of \<open>g\<close> that starts at the first of them holds all of them.
\<close>

definition contiguous :: "string \<Rightarrow> json list \<Rightarrow> bool" where
  "contiguous g xs =
     (filter (in_group g) xs = takeWhile (in_group g) (dropWhile (\<lambda>d. \<not> in_group g d) xs))"

text \<open>
  The span of the records of \<open>g2\<close> immediately follows the span of the records of \<open>g1\<close>:
  both groups have records, and the sequence is some records, then all the records of
  \<open>g1\<close>, then all the records of \<open>g2\<close>, then the rest.
\<close>

definition follows_immediately :: "string \<Rightarrow> string \<Rightarrow> json list \<Rightarrow> bool" where
  "follows_immediately g1 g2 xs =
     (filter (in_group g1) xs \<noteq> [] \<and> filter (in_group g2) xs \<noteq> [] \<and>
      (\<exists>A B. xs = A @ filter (in_group g1) xs @ filter (in_group g2) xs @ B))"

text \<open>
  The groups named at different positions of the specification share no record. A group
  that has a record is not disjoint from itself, so no name of such a group is repeated.
\<close>

fun disjoint_groups :: "string list \<Rightarrow> json list \<Rightarrow> bool" where
  "disjoint_groups [] xs = True"
| "disjoint_groups (g # gs) xs =
     (list_all (\<lambda>h. \<not> list_ex (\<lambda>d. in_group g d \<and> in_group h d) xs) gs \<and>
      disjoint_groups gs xs)"

text \<open>The records of either of two groups.\<close>

definition in_pair :: "string \<Rightarrow> string \<Rightarrow> json \<Rightarrow> bool" where
  "in_pair a b d = (in_group a d \<or> in_group b d)"

text \<open>Every group name that is a string can be the stem of a file name.\<close>

definition plain_group_names :: "json list \<Rightarrow> bool" where
  "plain_group_names cfg =
     list_all (\<lambda>d. case subscript_group d of Inr (JStr s) \<Rightarrow> plain_stem s | _ \<Rightarrow> True) cfg"

text \<open>A record whose \<^verbatim>\<open>group\<close> is a string that can be the stem of a file name.\<close>

definition plain_record :: "json \<Rightarrow> bool" where
  "plain_record d = (case subscript_group d of Inr (JStr s) \<Rightarrow> plain_stem s | _ \<Rightarrow> False)"

fun plain_key :: "json \<Rightarrow> bool" where
  "plain_key (JStr s) = plain_stem s"
| "plain_key _ = False"

text \<open>No record of the sequence belongs to group \<open>g\<close>.\<close>

definition absent :: "json list \<Rightarrow> string \<Rightarrow> bool" where
  "absent xs g = (\<not> list_ex (in_group g) xs)"

section \<open>Sample data\<close>

definition x2 :: json where "x2 = JObj [(''group'', JStr ''x''), (''k'', JInt 3)]"

definition y2 :: json where "y2 = JObj [(''group'', JStr ''y''), (''k'', JInt 4)]"

definition z1 :: json where "z1 = JObj [(''group'', JStr ''z''), (''k'', JInt 5)]"

definition x1 :: json where "x1 = JObj [(''group'', JStr ''x''), (''k'', JInt 1)]"

definition y1 :: json where "y1 = JObj [(''group'', JStr ''y''), (''k'', JInt 2)]"

text \<open>The tree of the end-to-end example: main config \<^verbatim>\<open>{"a":1}\<close>, one fragment file,
  ordering specification \<^verbatim>\<open>["y","x"]\<close>; and what the run leaves.\<close>

definition fs_example :: filesystem where
  "fs_example = \<lparr>main_json = Some (JObj [(''a'', JInt 1)]),
     groups_directory = Some [(''fragments.json'', JArr [x1, y1])],
     order_json = Some [''y'', ''x''],
     config_json = None\<rparr>"

definition fs_example_after :: filesystem where
  "fs_example_after = \<lparr>main_json = Some (JObj [(''a'', JInt 1)]),
      groups_directory = Some [(''y.json'', JArr [y1]), (''x.json'', JArr [x1])],
      order_json = Some [''y'', ''x''],
      config_json = Some (JObj [(''a'', JInt 1), (''customConfig'', JArr [y1, x1])])\<rparr>"

text \<open>A tree whose only record has no \<^verbatim>\<open>group\<close> field, with a given order manifest.\<close>

definition fs_malformed :: "string list \<Rightarrow> filesystem" where
  "fs_malformed names = \<lparr>main_json = Some (JObj [(''a'', JInt 1)]),
     groups_directory = Some [(''fragments.json'', JArr [JObj [(''k'', JInt 1)]])],
     order_json = Some names,
     config_json = None\<rparr>"

text \<open>A tree with an empty order manifest and a given groups directory.\<close>

definition fs_without_groups :: "directory option \<Rightarrow> filesystem" where
  "fs_without_groups dir = \<lparr>main_json = Some (JObj [(''a'', JInt 1)]),
     groups_directory = dir,
     order_json = Some [],
     config_json = None\<rparr>"

text \<open>A tree whose order manifest has one name.\<close>

definition fs_singleton :: filesystem where
  "fs_singleton = \<lparr>main_json = Some (JObj [(''a'', JInt 1)]),
     groups_directory = Some [(''fragments.json'', JArr [x1, y1])],
     order_json = Some [''x''],
     config_json = None\<rparr>"

text \<open>The compiler of the end-to-end example after \<^verbatim>\<open>_sort_custom_config\<close>.\<close>

definition sorted_example :: JsonCompiler where
  "sorted_example = \<lparr>ordering_data = [''y'', ''x''], main_config = [(''a'', JInt 1)],
     custom_config = [y1, x1]\<rparr>"

text \<open>The tree of the end-to-end example with a given order manifest.\<close>

definition fs_ordered :: "string list \<Rightarrow> filesystem" where
  "fs_ordered names = \<lparr>main_json = Some (JObj [(''a'', JInt 1)]),
     groups_directory = Some [(''fragments.json'', JArr [x1, y1])],
     order_json = Some names,
     config_json = None\<rparr>"

text \<open>
  A store with the two records of the end-to-end example and the caller's list at address
  2, and the store after the engine has sorted a copy of that list.
\<close>

definition heap_example :: heap where
  "heap_example = [PyRecord x1, PyRecord y1, PyList [0, 1]]"

definition heap_example_after :: heap where
  "heap_example_after =
     [PyRecord x1, PyRecord y1, PyList [0, 1],
      PyRecord x1, PyRecord y1, PyList [3, 4],
      PyList [], PyList [3], PyList [4], PyList [4],
      PyList [4], PyList [], PyList [4, 3], PyList [4, 3]]"

section \<open>The lookup, the extraction and the insertion on a decomposed sequence\<close>

lemma collect_loop_append:
  "collect_loop (xs @ ys) g i item =
     (case collect_loop xs g i item of
        (Inl e, l) \<Rightarrow> (Inl e, l)
      | (Inr item', l) \<Rightarrow> prepend l (collect_loop ys g (i + length xs) item'))"
  by (induction xs arbitrary: i item)
     (auto simp: prepend_def Let_def split: sum.splits error.splits prod.splits)

lemma collect_loop_free:
  "list_all has_group_field xs \<Longrightarrow> \<forall>x\<in>set xs. \<not> in_group g x \<Longrightarrow>
   collect_loop xs g i item = (Inr item, [])"
  by (induction xs arbitrary: i item)
     (auto simp: has_group_field_def in_group_def split: sum.splits error.splits)

lemma collect_loop_first_kept:
  "list_all has_group_field xs \<Longrightarrow> first_item_index item = Some f \<Longrightarrow>
   \<exists>la. collect_loop xs g i item =
     (Inr \<lparr>first_item_index = Some f, last_item_index = la\<rparr>, [])"
proof (induction xs arbitrary: i item)
  case Nil
  then show ?case by (cases item) simp
next
  case (Cons x xs)
  then obtain v where v: "subscript_group x = Inr v"
    by (auto simp: has_group_field_def split: sum.splits)
  from Cons.prems have xs: "list_all has_group_field xs" by simp
  show ?case
    using Cons.IH[OF xs, of _ "Suc i"] v Cons.prems(2)
    by (simp add: Let_def)
qed

lemma collect_loop_hit:
  "in_group g x \<Longrightarrow>
   collect_loop (x # xs) g i item =
     collect_loop xs g (Suc i)
       \<lparr>first_item_index = (if first_item_index item = None then Some i
                             else first_item_index item),
        last_item_index = Some i\<rparr>"
  by (cases item) (simp add: in_group_def)

lemma collect_loop_snoc_hit:
  assumes "list_all has_group_field xs" "in_group g z" "first_item_index item = Some f"
  shows "collect_loop (xs @ [z]) g i item =
           (Inr \<lparr>first_item_index = Some f, last_item_index = Some (i + length xs)\<rparr>, [])"
proof -
  obtain la where "collect_loop xs g i item =
      (Inr \<lparr>first_item_index = Some f, last_item_index = la\<rparr>, [])"
    using collect_loop_first_kept[OF assms(1,3)] by blast
  then show ?thesis
    using assms(2) by (simp add: collect_loop_append collect_loop_hit prepend_def del: collect_loop.simps(2))
qed

lemma collect_loop_span:
  assumes hg: "list_all has_group_field (A @ M @ B)"
    and A: "\<forall>x\<in>set A. \<not> in_group g x" and B: "\<forall>x\<in>set B. \<not> in_group g x"
    and M: "M \<noteq> []" "in_group g (hd M)" "in_group g (last M)"
  shows "collect_loop (A @ M @ B) g 0 \<lparr>first_item_index = None, last_item_index = None\<rparr> =
           (Inr \<lparr>first_item_index = Some (length A),
                 last_item_index = Some (length A + length M - 1)\<rparr>, [])"
proof -
  from hg have hA: "list_all has_group_field A" and hM: "list_all has_group_field M"
    and hB: "list_all has_group_field B" by simp_all
  obtain x M' where Mx: "M = x # M'" using M(1) by (cases M) auto
  have x: "in_group g x" using M(2) Mx by simp
  have mid: "collect_loop M g (length A) \<lparr>first_item_index = None, last_item_index = None\<rparr> =
           (Inr \<lparr>first_item_index = Some (length A),
                 last_item_index = Some (length A + length M - 1)\<rparr>, [])"
  proof (cases "M' = []")
    case True
    then show ?thesis using x Mx by (simp add: collect_loop_hit del: collect_loop.simps(2))
  next
    case False
    then obtain M'' z where M': "M' = M'' @ [z]" by (metis rev_exhaust)
    have z: "in_group g z" using M(3) Mx M' by simp
    have hM'': "list_all has_group_field M''" using hM Mx M' by simp
    show ?thesis
      using collect_loop_snoc_hit[OF hM'' z, of _ "length A" "Suc (length A)"] x
      by (simp add: Mx M' collect_loop_hit del: collect_loop.simps(2))
  qed
  show ?thesis
    by (simp add: collect_loop_append collect_loop_free[OF hA A] collect_loop_free[OF hB B]
        mid prepend_def)
qed

lemma collect_span:
  assumes "list_all has_group_field (A @ M @ B)"
    and "\<forall>x\<in>set A. \<not> in_group g x" and "\<forall>x\<in>set B. \<not> in_group g x"
    and "M \<noteq> []" "in_group g (hd M)" "in_group g (last M)"
  shows "collect_group_ordering_data_item (A @ M @ B) g =
           (Inr \<lparr>first_item_index = Some (length A),
                 last_item_index = Some (length A + length M - 1)\<rparr>, [])"
  unfolding collect_group_ordering_data_item_def collect_loop_span[OF assms]
  by (simp add: is_found_def)

lemma collect_missing:
  assumes "list_all has_group_field xs" "\<forall>x\<in>set xs. \<not> in_group g x"
  shows "collect_group_ordering_data_item xs g =
           (Inl (SortingGroupDoesNotExist g), [Warning_group_not_found g])"
  unfolding collect_group_ordering_data_item_def collect_loop_free[OF assms]
  by (simp add: is_found_def)

lemma pop_span:
  assumes "list_all has_group_field (A @ M @ B)"
    and "\<forall>x\<in>set A. \<not> in_group g x" and "\<forall>x\<in>set B. \<not> in_group g x"
    and "M \<noteq> []" "in_group g (hd M)" "in_group g (last M)"
  shows "pop_group_2 (A @ M @ B) g = (Inr (M, A @ B), [])"
proof -
  have "length M - 1 + 1 = length M" using assms(4) by (cases M) auto
  then show ?thesis
    unfolding pop_group_2_def collect_span[OF assms]
    by (simp add: slice_def)
qed

lemma pop_missing:
  assumes "list_all has_group_field xs" "\<forall>x\<in>set xs. \<not> in_group g x"
  shows "pop_group_2 xs g = (Inl (SortingGroupDoesNotExist g), [Warning_group_not_found g])"
  unfolding pop_group_2_def collect_missing[OF assms] by simp

lemma insert_missing:
  assumes "list_all has_group_field xs" "\<forall>x\<in>set xs. \<not> in_group g x"
  shows "insert_group_2_after_group_1 xs g N =
           (Inl (SortingGroupDoesNotExist g), [Warning_group_not_found g])"
  unfolding insert_group_2_after_group_1_def collect_missing[OF assms] by simp

lemma insert_span:
  assumes hg: "list_all has_group_field (P @ y # Q)"
    and y: "in_group g y" and Q: "\<forall>x\<in>set Q. \<not> in_group g x"
  shows "insert_group_2_after_group_1 (P @ y # Q) g N = (Inr (P @ y # N @ Q), [])"
proof -
  have "\<exists>x\<in>set (P @ [y]). in_group g x" using y by simp
  from split_list_first_prop[OF this]
  obtain A x R where dec: "P @ [y] = A @ x # R" "in_group g x"
      "\<forall>a\<in>set A. \<not> in_group g a"
    by blast
  define M where "M = x # R"
  have PM: "P @ [y] = A @ M" using dec(1) M_def by simp
  have M: "M \<noteq> []" "in_group g (hd M)" using dec(2) M_def by simp_all
  have "last (P @ [y]) = last (A @ M)" using PM by simp
  then have lastM: "in_group g (last M)" using y M(1) by simp
  have eq: "P @ y # Q = A @ M @ Q"
  proof -
    have "P @ y # Q = (P @ [y]) @ Q" by simp
    also have "\<dots> = (A @ M) @ Q" using PM by simp
    finally show ?thesis by simp
  qed
  have len: "Suc (length A + length M - Suc 0) = length A + length M"
    using M(1) by (cases M) auto
  have hg': "list_all has_group_field (A @ M @ Q)" using hg eq by simp
  have r1: "insert_group_2_after_group_1 (A @ M @ Q) g N = (Inr (A @ M @ N @ Q), [])"
    unfolding insert_group_2_after_group_1_def collect_span[OF hg' dec(3) Q M lastM]
    by (simp add: len)
  have r2: "P @ y # N @ Q = A @ M @ N @ Q"
  proof -
    have "P @ y # N @ Q = (P @ [y]) @ N @ Q" by simp
    also have "\<dots> = (A @ M) @ N @ Q" using PM by simp
    finally show ?thesis by simp
  qed
  show ?thesis unfolding eq r2 by (rule r1)
qed

lemma span_exists:
  assumes "\<exists>x\<in>set xs. in_group g x"
  shows "\<exists>A M B. xs = A @ M @ B \<and> (\<forall>x\<in>set A. \<not> in_group g x) \<and>
           (\<forall>x\<in>set B. \<not> in_group g x) \<and> M \<noteq> [] \<and> in_group g (hd M) \<and> in_group g (last M)"
proof -
  from split_list_first_prop[OF assms]
  obtain A x R where dec: "xs = A @ x # R" "in_group g x" "\<forall>a\<in>set A. \<not> in_group g a"
    by blast
  have "\<exists>z\<in>set (x # R). in_group g z" using dec(2) by simp
  from split_list_last_prop[OF this]
  obtain M' z B where dec2: "x # R = M' @ z # B" "in_group g z"
      "\<forall>b\<in>set B. \<not> in_group g b"
    by blast
  define M where "M = M' @ [z]"
  have "hd M = x" using dec2(1) M_def by (cases M') auto
  then have hd: "in_group g (hd M)" using dec(2) by simp
  have xs: "xs = A @ M @ B" using dec(1) dec2(1) M_def by simp
  have "M \<noteq> []" "in_group g (last M)" using dec2(2) M_def by simp_all
  with hd xs dec(3) dec2(3) show ?thesis by blast
qed

section \<open>A pair whose first group is missing\<close>

text \<open>
  Claim C5. For a pair (G1, G2) of the specification where the current sequence has a
  record of G2 and none of G1: \<^verbatim>\<open>_pop_group_2\<close> extracts the span from the first to the
  last record of G2, the lookup of G1 raises \<^verbatim>\<open>SortingGroupDoesNotExist\<close>, the span is not
  put back, and the loop goes on to the remaining pairs with the sequence that has lost
  the span (and so every record of G2).
\<close>

theorem missing_first_group_drops_second:
  assumes hg: "list_all has_group_field cfg"
    and g2: "list_ex (in_group group_name_2) cfg"
    and g1: "\<not> list_ex (in_group group_name_1) cfg"
  shows "\<exists>before_group_2 group_2 after_group_2.
           cfg = before_group_2 @ group_2 @ after_group_2 \<and>
           group_2 \<noteq> [] \<and> in_group group_name_2 (hd group_2) \<and>
           in_group group_name_2 (last group_2) \<and>
           \<not> list_ex (in_group group_name_2) (before_group_2 @ after_group_2) \<and>
           pop_group_2 cfg group_name_2 =
             (Inr (group_2, before_group_2 @ after_group_2), []) \<and>
           insert_group_2_after_group_1 (before_group_2 @ after_group_2) group_name_1 group_2 =
             (Inl (SortingGroupDoesNotExist group_name_1),
              [Warning_group_not_found group_name_1]) \<and>
           sort_pairs ((group_name_1, group_name_2) # pairs) cfg missing_groups =
             prepend [Warning_group_not_found group_name_1]
               (sort_pairs pairs (before_group_2 @ after_group_2)
                  (insert group_name_1 missing_groups))"
proof -
  from g2 have "\<exists>x\<in>set cfg. in_group group_name_2 x" by (simp add: list_ex_iff)
  from span_exists[OF this]
  obtain A M B where dec: "cfg = A @ M @ B"
      "\<forall>x\<in>set A. \<not> in_group group_name_2 x" "\<forall>x\<in>set B. \<not> in_group group_name_2 x"
      "M \<noteq> []" "in_group group_name_2 (hd M)" "in_group group_name_2 (last M)"
    by blast
  have hg': "list_all has_group_field (A @ M @ B)" using hg dec(1) by simp
  have pop: "pop_group_2 cfg group_name_2 = (Inr (M, A @ B), [])"
    unfolding dec(1) by (rule pop_span[OF hg' dec(2-6)])
  have hAB: "list_all has_group_field (A @ B)" using hg' by simp
  have nAB: "\<forall>x\<in>set (A @ B). \<not> in_group group_name_1 x"
    using g1 dec(1) by (auto simp: list_ex_iff)
  have ins: "insert_group_2_after_group_1 (A @ B) group_name_1 M =
      (Inl (SortingGroupDoesNotExist group_name_1), [Warning_group_not_found group_name_1])"
    by (rule insert_missing[OF hAB nAB])
  have step: "sort_pairs ((group_name_1, group_name_2) # pairs) cfg missing_groups =
      prepend [Warning_group_not_found group_name_1]
        (sort_pairs pairs (A @ B) (insert group_name_1 missing_groups))"
    by (simp add: pop ins)
  have free: "\<not> list_ex (in_group group_name_2) (A @ B)"
    using dec(2,3) by (auto simp: list_ex_iff)
  show ?thesis
    using dec(1,4,5,6) free pop ins step by blast
qed

theorem missing_first_group_drops_second_witness:
  "\<exists>before_group_2 group_2 after_group_2.
     [x1, y1] = before_group_2 @ group_2 @ after_group_2 \<and>
     group_2 \<noteq> [] \<and> in_group ''x'' (hd group_2) \<and> in_group ''x'' (last group_2) \<and>
     \<not> list_ex (in_group ''x'') (before_group_2 @ after_group_2) \<and>
     pop_group_2 [x1, y1] ''x'' = (Inr (group_2, before_group_2 @ after_group_2), []) \<and>
     insert_group_2_after_group_1 (before_group_2 @ after_group_2) ''z'' group_2 =
       (Inl (SortingGroupDoesNotExist ''z''), [Warning_group_not_found ''z'']) \<and>
     sort_pairs [(''z'', ''x'')] [x1, y1] {} =
       prepend [Warning_group_not_found ''z'']
         (sort_pairs [] (before_group_2 @ after_group_2) (insert ''z'' {}))"
  using missing_first_group_drops_second[of "[x1, y1]" "''x''" "''z''" "[]" "{}"]
  by (simp add: has_group_field_def in_group_def x1_def y1_def)

section \<open>The whole run\<close>

lemmas run_defs = run_def load_main_config_def load_custom_config_def sort_custom_config_def
  recreate_custom_config_files_def replace_live_store_def restore_from_backup_def
  get_joined_main_and_custom_config_def replace_config_in_root_def new_JsonCompiler_def
  is_json_name_def append_to_group_def plain_stem_def prepend_def
  get_sorted_custom_config_def pop_group_2_def insert_group_2_after_group_1_def
  collect_group_ordering_data_item_def is_found_def slice_def

lemma run_example:
  "run No_fault fs_example =
    (Inr (),
     \<lparr>main_json = Some (JObj [(''a'', JInt 1)]),
      groups_directory = Some [(''y.json'', JArr [y1]), (''x.json'', JArr [x1])],
      order_json = Some [''y'', ''x''],
      config_json = Some (JObj [(''a'', JInt 1), (''customConfig'', JArr [y1, x1])])\<rparr>,
     [Info_loaded_main, Info_loaded_custom ''fragments.json'',
      Info_sorted_groups [''y'', ''x''], Info_recreated, Info_wrote_merged])"
  by (simp add: run_defs fs_example_def x1_def y1_def)

lemma run_success_cases:
  assumes "run flt fs = (Inr (), fs', l)"
  shows "\<exists>self1 l1 self2 l2 self3 l3 fs1 l4.
     load_main_config new_JsonCompiler fs = (Inr self1, l1) \<and>
     load_custom_config self1 fs = (Inr self2, l2) \<and>
     sort_custom_config self2 fs = (Inr self3, l3) \<and>
     recreate_custom_config_files flt self3 fs = (Inr (), fs1, l4) \<and>
     fs' = fs1\<lparr>config_json := Some (get_joined_main_and_custom_config self3)\<rparr>"
  using assms
  by (auto simp: run_def replace_config_in_root_def split: prod.splits sum.splits)

lemma load_main_config_result:
  "load_main_config self fs = (Inr self1, l) \<Longrightarrow>
   main_json fs = Some (JObj (main_config self1))"
  by (auto simp: load_main_config_def split: option.splits json.splits)

lemma load_custom_config_main:
  "load_custom_config self fs = (Inr self2, l) \<Longrightarrow> main_config self2 = main_config self"
  by (auto simp: load_custom_config_def Let_def split: option.splits if_splits prod.splits sum.splits)

lemma sort_custom_config_main:
  "sort_custom_config self fs = (Inr self3, l) \<Longrightarrow> main_config self3 = main_config self"
  by (auto simp: sort_custom_config_def Let_def split: option.splits if_splits prod.splits sum.splits)

text \<open>
  Claim C9. After a successful run the output file holds an object that has every key
  of the main config, with the value of the main config at every key other than
  \<^verbatim>\<open>customConfig\<close>, and whose \<^verbatim>\<open>customConfig\<close> is the sequence of fragment records that
  \<^verbatim>\<open>_sort_custom_config\<close> left in the compiler. For the tree of the end-to-end example the
  run succeeds and the output is
  \<^verbatim>\<open>{"a":1,"customConfig":[{"group":"y","k":2},{"group":"x","k":1}]}\<close>.
\<close>

theorem merged_document_of_successful_run:
  "(run flt fs = (Inr (), fs', l) \<longrightarrow>
     (\<exists>self1 l1 self2 l2 self3 l3 merged.
        load_main_config new_JsonCompiler fs = (Inr self1, l1) \<and>
        load_custom_config self1 fs = (Inr self2, l2) \<and>
        sort_custom_config self2 fs = (Inr self3, l3) \<and>
        main_json fs = Some (JObj (main_config self3)) \<and>
        config_json fs' = Some (JObj merged) \<and>
        fst ` set (main_config self3) \<subseteq> fst ` set merged \<and>
        map_of merged ''customConfig'' = Some (JArr (custom_config self3)) \<and>
        (\<forall>k. k \<noteq> ''customConfig'' \<longrightarrow> map_of merged k = map_of (main_config self3) k))) \<and>
   (\<exists>fs' l. run No_fault fs_example = (Inr (), fs', l) \<and>
      config_json fs' =
        Some (JObj [(''a'', JInt 1), (''customConfig'', JArr [y1, x1])]))"
proof (intro conjI impI)
  assume ok: "run flt fs = (Inr (), fs', l)"
  from run_success_cases[OF ok]
  obtain self1 l1 self2 l2 self3 l3 fs1 l4 where
    s: "load_main_config new_JsonCompiler fs = (Inr self1, l1)"
       "load_custom_config self1 fs = (Inr self2, l2)"
       "sort_custom_config self2 fs = (Inr self3, l3)"
       "fs' = fs1\<lparr>config_json := Some (get_joined_main_and_custom_config self3)\<rparr>"
    by blast
  define merged where
    "merged = AList.update ''customConfig'' (JArr (custom_config self3)) (main_config self3)"
  have m3: "main_config self3 = main_config self1"
    using sort_custom_config_main[OF s(3)] load_custom_config_main[OF s(2)] by simp
  have a: "main_json fs = Some (JObj (main_config self3))"
    using load_main_config_result[OF s(1)] m3 by simp
  have b: "config_json fs' = Some (JObj merged)"
    using s(4) by (simp add: get_joined_main_and_custom_config_def merged_def)
  have c: "fst ` set (main_config self3) \<subseteq> fst ` set merged"
    by (auto simp: merged_def dom_update)
  have d: "map_of merged ''customConfig'' = Some (JArr (custom_config self3))"
    by (simp add: merged_def update_conv')
  have e: "\<forall>k. k \<noteq> ''customConfig'' \<longrightarrow> map_of merged k = map_of (main_config self3) k"
    by (simp add: merged_def update_conv')
  from s(1-3) a b c d e
  show "\<exists>self1 l1 self2 l2 self3 l3 merged.
        load_main_config new_JsonCompiler fs = (Inr self1, l1) \<and>
        load_custom_config self1 fs = (Inr self2, l2) \<and>
        sort_custom_config self2 fs = (Inr self3, l3) \<and>
        main_json fs = Some (JObj (main_config self3)) \<and>
        config_json fs' = Some (JObj merged) \<and>
        fst ` set (main_config self3) \<subseteq> fst ` set merged \<and>
        map_of merged ''customConfig'' = Some (JArr (custom_config self3)) \<and>
        (\<forall>k. k \<noteq> ''customConfig'' \<longrightarrow> map_of merged k = map_of (main_config self3) k)"
    by blast
next
  show "\<exists>fs' l. run No_fault fs_example = (Inr (), fs', l) \<and>
      config_json fs' = Some (JObj [(''a'', JInt 1), (''customConfig'', JArr [y1, x1])])"
    by (simp add: run_example)
qed

theorem merged_document_of_successful_run_witness:
  "run No_fault fs_example =
     (Inr (), fs_example_after,
      [Info_loaded_main, Info_loaded_custom ''fragments.json'',
       Info_sorted_groups [''y'', ''x''], Info_recreated, Info_wrote_merged]) \<and>
   (\<exists>self1 l1 self2 l2 self3 l3 merged.
        load_main_config new_JsonCompiler fs_example = (Inr self1, l1) \<and>
        load_custom_config self1 fs_example = (Inr self2, l2) \<and>
        sort_custom_config self2 fs_example = (Inr self3, l3) \<and>
        main_json fs_example = Some (JObj (main_config self3)) \<and>
        config_json fs_example_after = Some (JObj merged) \<and>
        fst ` set (main_config self3) \<subseteq> fst ` set merged \<and>
        map_of merged ''customConfig'' = Some (JArr (custom_config self3)) \<and>
        (\<forall>k. k \<noteq> ''customConfig'' \<longrightarrow> map_of merged k = map_of (main_config self3) k))"
proof -
  have r: "run No_fault fs_example =
     (Inr (), fs_example_after,
      [Info_loaded_main, Info_loaded_custom ''fragments.json'',
       Info_sorted_groups [''y'', ''x''], Info_recreated, Info_wrote_merged])"
    by (simp add: run_example fs_example_after_def)
  from merged_document_of_successful_run[of No_fault fs_example fs_example_after]
  show ?thesis using r by blast
qed

text \<open>
  Claim C6. When the order manifest is a list of exactly one name, \<^verbatim>\<open>_sort_custom_config\<close>
  raises \<^verbatim>\<open>ValueError\<close> whatever the state of the compiler; the run does not succeed and
  returns the tree as it found it (no store file and no output file is created or
  modified, the rewriter is never reached); and in every run that gets as far as reading
  the manifest, that is when the main config and the fragments load, the error of the
  run is that \<^verbatim>\<open>ValueError\<close>.
\<close>

theorem singleton_manifest_is_fatal:
  assumes "order_json fs = Some [g]"
  shows "(\<forall>self. sort_custom_config self fs = (Inl ValueError, [])) \<and>
         fst (run flt fs) \<noteq> Inr () \<and>
         fst (snd (run flt fs)) = fs \<and>
         ((\<exists>self1 l1 self2 l2. load_main_config new_JsonCompiler fs = (Inr self1, l1) \<and>
              load_custom_config self1 fs = (Inr self2, l2)) \<longrightarrow>
          fst (run flt fs) = Inl ValueError)"
proof -
  have s: "\<And>self. sort_custom_config self fs = (Inl ValueError, [])"
    using assms by (simp add: sort_custom_config_def)
  show ?thesis
    using s by (auto simp: run_def split: prod.splits sum.splits)
qed

theorem singleton_manifest_is_fatal_witness:
  "run No_fault fs_singleton =
     (Inl ValueError, fs_singleton, [Info_loaded_main, Info_loaded_custom ''fragments.json'']) \<and>
   sort_custom_config new_JsonCompiler fs_singleton = (Inl ValueError, []) \<and>
   fst (snd (run No_fault fs_singleton)) = fs_singleton"
proof -
  have o: "order_json fs_singleton = Some [''x'']" by (simp add: fs_singleton_def)
  have r: "run No_fault fs_singleton =
     (Inl ValueError, fs_singleton, [Info_loaded_main, Info_loaded_custom ''fragments.json''])"
    by (simp add: run_defs fs_singleton_def)
  from singleton_manifest_is_fatal[OF o, of No_fault] r show ?thesis by blast
qed

text \<open>
  Claim C7, on the code: with an empty order manifest the ordering engine is skipped, and
  the record without a \<^verbatim>\<open>group\<close> field is met by the partition step of
  \<^verbatim>\<open>_recreate_custom_config_files\<close>, which raises \<^verbatim>\<open>KeyError\<close> without logging the record;
  with a manifest of two names the lookup of the ordering engine raises the same error
  and logs the record. In both runs the tree is left as it was.
\<close>

theorem malformed_record_not_logged_by_rewriter:
  "run No_fault (fs_malformed []) =
     (Inl KeyError, fs_malformed [],
      [Info_loaded_main, Info_loaded_custom ''fragments.json'', Info_order_empty]) \<and>
   run No_fault (fs_malformed [''x'', ''y'']) =
     (Inl KeyError, fs_malformed [''x'', ''y''],
      [Info_loaded_main, Info_loaded_custom ''fragments.json'',
       Error_malformed_object (JObj [(''k'', JInt 1)])])"
  by (simp add: run_defs fs_malformed_def)

text \<open>
  Claim C8, on the code: when the groups directory is absent the loading step skips it,
  but the backup step of \<^verbatim>\<open>_recreate_custom_config_files\<close> copies the directory without
  testing that it exists, so the run ends with \<^verbatim>\<open>FileNotFoundError\<close> and writes no merged
  document. With a directory that exists and is empty the run succeeds.
\<close>

theorem absent_groups_directory_fails:
  "run No_fault (fs_without_groups None) =
     (Inl FileNotFoundError, fs_without_groups None,
      [Info_loaded_main, Info_no_custom_directory, Info_order_empty]) \<and>
   run No_fault (fs_without_groups (Some [])) =
     (Inr (),
      (fs_without_groups (Some []))
        \<lparr>config_json := Some (JObj [(''a'', JInt 1), (''customConfig'', JArr [])])\<rparr>,
      [Info_loaded_main, Info_no_custom_files, Info_order_empty, Info_recreated,
       Info_wrote_merged])"
  by (simp add: run_defs fs_without_groups_def)

section \<open>The replacement of the store\<close>

lemma replace_live_store_frame:
  "replace_live_store flt manifest staged fs = (r, fs1) \<Longrightarrow>
   main_json fs1 = main_json fs \<and> config_json fs1 = config_json fs"
  by (auto simp: replace_live_store_def Let_def split: fault.splits option.splits prod.splits)

lemma replace_live_store_success:
  "replace_live_store flt manifest staged fs = (Inr u, fs1) \<Longrightarrow>
   fs1 = fs\<lparr>order_json := Some manifest, groups_directory := Some staged\<rparr>"
  by (auto simp: replace_live_store_def Let_def split: fault.splits option.splits prod.splits)

lemma restore_from_backup_eq:
  assumes "main_json fs1 = main_json fs" "config_json fs1 = config_json fs"
    "order_json fs = Some backup_order" "groups_directory fs = Some backup_groups"
  shows "restore_from_backup backup_order backup_groups fs1 = fs"
  using assms by (cases fs; cases fs1) (auto simp: restore_from_backup_def Let_def)

text \<open>
  Claim C3. For records whose group names are plain file names, whatever exception is
  injected into the replacement of the live store: \<^verbatim>\<open>_recreate_custom_config_files\<close>
  returns either the tree it was given (the manifest file and the groups directory with
  their contents before the run) or, when it succeeds, the tree whose manifest and groups
  directory are the newly built ones; and whenever the body of the \<^verbatim>\<open>try\<close> raises an
  exception, leaving the live store in any state, the function logs the restoration,
  returns the tree as it was before the run and re-raises that exception. The operations
  of the handler are taken to succeed.
\<close>

theorem store_replaced_or_restored:
  assumes "plain_group_names (custom_config self)"
    and "recreate_custom_config_files flt self fs = (r, fs', l)"
  shows "(fs' = fs \<or>
          (r = Inr () \<and>
           (\<exists>groups staged.
              partition_groups (custom_config self) [] = Inr groups \<and>
              stage_groups groups [] = Inr staged \<and>
              fs' = fs\<lparr>order_json := Some (string_keys groups),
                       groups_directory := Some staged\<rparr>))) \<and>
         (\<forall>groups staged e fs1.
            partition_groups (custom_config self) [] = Inr groups \<and>
            stage_groups groups [] = Inr staged \<and>
            list_all is_JStr (map fst groups) \<and>
            order_json fs \<noteq> None \<and> groups_directory fs \<noteq> None \<and>
            replace_live_store flt (string_keys groups) staged fs = (Inl e, fs1) \<longrightarrow>
            r = Inl e \<and> fs' = fs \<and> Error_restoring_backup \<in> set l)"
proof (rule conjI)
  show "fs' = fs \<or>
          (r = Inr () \<and>
           (\<exists>groups staged.
              partition_groups (custom_config self) [] = Inr groups \<and>
              stage_groups groups [] = Inr staged \<and>
              fs' = fs\<lparr>order_json := Some (string_keys groups),
                       groups_directory := Some staged\<rparr>))"
  proof (cases "\<exists>groups staged bo bg. partition_groups (custom_config self) [] = Inr groups \<and>
      stage_groups groups [] = Inr staged \<and> list_all is_JStr (map fst groups) \<and>
      order_json fs = Some bo \<and> groups_directory fs = Some bg")
    case False
    then have "fs' = fs"
      using assms(2)
      by (auto simp: recreate_custom_config_files_def Let_def
          split: sum.splits option.splits if_splits)
    then show ?thesis by simp
  next
    case True
    then obtain groups staged bo bg where
      g: "partition_groups (custom_config self) [] = Inr groups"
         "stage_groups groups [] = Inr staged" "list_all is_JStr (map fst groups)"
         "order_json fs = Some bo" "groups_directory fs = Some bg"
      by blast
    obtain r1 fs1 where rl: "replace_live_store flt (string_keys groups) staged fs = (r1, fs1)"
      by (cases "replace_live_store flt (string_keys groups) staged fs") auto
    show ?thesis
    proof (cases r1)
      case (Inl e)
      have "restore_from_backup bo bg fs1 = fs"
        using replace_live_store_frame[OF rl] g(4,5) by (intro restore_from_backup_eq) auto
      then have "fs' = fs"
        using assms(2) g rl Inl by (simp add: recreate_custom_config_files_def Let_def)
      then show ?thesis by simp
    next
      case (Inr u)
      have "fs1 = fs\<lparr>order_json := Some (string_keys groups), groups_directory := Some staged\<rparr>"
        using replace_live_store_success rl Inr by blast
      then have "r = Inr () \<and>
          fs' = fs\<lparr>order_json := Some (string_keys groups), groups_directory := Some staged\<rparr>"
        using assms(2) g rl Inr by (simp add: recreate_custom_config_files_def Let_def)
      then show ?thesis using g(1,2) by blast
    qed
  qed
next
  show "\<forall>groups staged e fs1.
            partition_groups (custom_config self) [] = Inr groups \<and>
            stage_groups groups [] = Inr staged \<and>
            list_all is_JStr (map fst groups) \<and>
            order_json fs \<noteq> None \<and> groups_directory fs \<noteq> None \<and>
            replace_live_store flt (string_keys groups) staged fs = (Inl e, fs1) \<longrightarrow>
            r = Inl e \<and> fs' = fs \<and> Error_restoring_backup \<in> set l"
  proof (intro allI impI)
  fix groups staged e fs1
  assume h: "partition_groups (custom_config self) [] = Inr groups \<and>
            stage_groups groups [] = Inr staged \<and>
            list_all is_JStr (map fst groups) \<and>
            order_json fs \<noteq> None \<and> groups_directory fs \<noteq> None \<and>
            replace_live_store flt (string_keys groups) staged fs = (Inl e, fs1)"
  then obtain bo bg where b: "order_json fs = Some bo" "groups_directory fs = Some bg"
    by auto
  have fr: "main_json fs1 = main_json fs" "config_json fs1 = config_json fs"
    using h replace_live_store_frame by blast+
  have re: "restore_from_backup bo bg fs1 = fs"
    by (rule restore_from_backup_eq[OF fr b])
  show "r = Inl e \<and> fs' = fs \<and> Error_restoring_backup \<in> set l"
    using assms(2) h b re
    by (auto simp: recreate_custom_config_files_def Let_def)
  qed
qed

theorem store_replaced_or_restored_witness:
  "recreate_custom_config_files (Copytree_fails (Some [(''y.json'', JArr [y1])]))
      sorted_example fs_example =
     (Inl OSError, fs_example, [Error_restoring_backup]) \<and>
   replace_live_store (Copytree_fails (Some [(''y.json'', JArr [y1])])) [''y'', ''x'']
      [(''y.json'', JArr [y1]), (''x.json'', JArr [x1])] fs_example =
     (Inl OSError, fs_example\<lparr>order_json := Some [''y'', ''x''],
        groups_directory := Some [(''y.json'', JArr [y1])]\<rparr>)"
proof -
  have r: "recreate_custom_config_files (Copytree_fails (Some [(''y.json'', JArr [y1])]))
      sorted_example fs_example =
     (Inl OSError, fs_example, [Error_restoring_backup])"
    by (simp add: run_defs fs_example_def sorted_example_def x1_def y1_def)
  have p: "replace_live_store (Copytree_fails (Some [(''y.json'', JArr [y1])])) [''y'', ''x'']
      [(''y.json'', JArr [y1]), (''x.json'', JArr [x1])] fs_example =
     (Inl OSError, fs_example\<lparr>order_json := Some [''y'', ''x''],
        groups_directory := Some [(''y.json'', JArr [y1])]\<rparr>)"
    by (simp add: replace_live_store_def fs_example_def)
  have pl: "plain_group_names (custom_config sorted_example)"
    by (simp add: plain_group_names_def plain_stem_def sorted_example_def x1_def y1_def)
  from store_replaced_or_restored[OF pl r] r p show ?thesis by simp
qed

section \<open>Spans of records\<close>

lemma span_sides_free:
  assumes "xs = A @ filter p xs @ B"
  shows "filter p A = [] \<and> filter p B = []"
proof -
  have "length (filter p xs) = length (filter p (A @ filter p xs @ B))"
    using assms by simp
  then have "length (filter p A) + length (filter p B) = 0" by simp
  then show ?thesis by simp
qed

lemma one_spanI:
  assumes "xs = A @ M @ B" "\<forall>a\<in>set A. \<not> p a" "\<forall>b\<in>set B. \<not> p b" "\<forall>m\<in>set M. p m"
  shows "one_span p xs" "filter p xs = M"
proof -
  have fa: "filter p A = []" and fb: "filter p B = []" and fm: "filter p M = M"
    using assms(2-4) by (simp_all add: filter_empty_conv filter_id_conv)
  show f: "filter p xs = M" by (simp add: assms(1) fa fb fm)
  show "one_span p xs" unfolding one_span_def f using assms(1) by blast
qed

lemma one_spanE:
  assumes "one_span p xs"
  obtains A B where "xs = A @ filter p xs @ B" "\<forall>a\<in>set A. \<not> p a" "\<forall>b\<in>set B. \<not> p b"
proof -
  from assms obtain A B where x: "xs = A @ filter p xs @ B" unfolding one_span_def by blast
  from span_sides_free[OF x] have "\<forall>a\<in>set A. \<not> p a" "\<forall>b\<in>set B. \<not> p b"
    by (simp_all add: filter_empty_conv)
  with x show ?thesis using that by blast
qed

lemma block_either_side:
  assumes "A @ M @ B = P @ y # Q" "y \<notin> set M"
  shows "(\<exists>P'. P = A @ M @ P' \<and> B = P' @ y # Q) \<or> (\<exists>Q'. Q = Q' @ M @ B \<and> A = P @ y # Q')"
  using assms
  by (auto simp: append_eq_append_conv2 append_eq_Cons_conv Cons_eq_append_conv)

lemma split_last_unique:
  assumes "P @ y # Q = P' @ y' # Q'" "p y" "p y'" "\<forall>q\<in>set Q. \<not> p q" "\<forall>q\<in>set Q'. \<not> p q"
  shows "P = P' \<and> y = y' \<and> Q = Q'"
  using assms
  by (auto simp: append_eq_append_conv2 append_eq_Cons_conv Cons_eq_append_conv)

lemma one_span_filter:
  assumes "one_span p xs" "\<And>x. p x \<Longrightarrow> q x"
  shows "one_span p (filter q xs)"
proof -
  define F where "F = filter p xs"
  from assms(1) obtain A B where x: "xs = A @ F @ B"
    "\<forall>a\<in>set A. \<not> p a" "\<forall>b\<in>set B. \<not> p b" unfolding F_def by (rule one_spanE)
  have F: "\<forall>m\<in>set F. p m" by (auto simp: F_def)
  have "filter q F = F" by (rule filter_True) (use F assms(2) in blast)
  then have "filter q xs = filter q A @ F @ filter q B"
    by (metis x(1) filter_append)
  then show ?thesis
    using x(2,3) F by (intro one_spanI(1)[of _ "filter q A" F "filter q B"]) auto
qed

lemma one_span_insert_outside:
  assumes sp: "one_span p (P @ y # Q)" and y: "\<not> p y" and N: "\<forall>n\<in>set N. \<not> p n"
  shows "one_span p (P @ y # N @ Q)"
proof -
  define F where "F = filter p (P @ y # Q)"
  from sp obtain A B where x: "P @ y # Q = A @ F @ B"
    "\<forall>a\<in>set A. \<not> p a" "\<forall>b\<in>set B. \<not> p b" unfolding F_def by (rule one_spanE)
  have F: "\<forall>m\<in>set F. p m" by (auto simp: F_def)
  have "y \<notin> set F" using y F by blast
  from block_either_side[OF x(1)[symmetric] this]
  show ?thesis
  proof
    assume "\<exists>P'. P = A @ F @ P' \<and> B = P' @ y # Q"
    then obtain P' where d: "P = A @ F @ P'" "B = P' @ y # Q" by blast
    have e: "P @ y # N @ Q = A @ F @ (P' @ y # N @ Q)" using d(1) by simp
    have "\<forall>b\<in>set (P' @ y # N @ Q). \<not> p b" using x(3) d(2) N y by auto
    then show ?thesis
      using x(2) F by (intro one_spanI(1)[OF e]) auto
  next
    assume "\<exists>Q'. Q = Q' @ F @ B \<and> A = P @ y # Q'"
    then obtain Q' where d: "Q = Q' @ F @ B" "A = P @ y # Q'" by blast
    have e: "P @ y # N @ Q = (P @ y # N @ Q') @ F @ B" using d(1) by simp
    have "\<forall>b\<in>set (P @ y # N @ Q'). \<not> p b" using x(2) d(2) N y by auto
    then show ?thesis
      using x(3) F by (intro one_spanI(1)[OF e]) auto
  qed
qed

lemma one_span_last_split:
  assumes sp: "one_span p (P @ y # Q)" and y: "p y" and Q: "\<forall>q\<in>set Q. \<not> p q"
  shows "\<exists>A. P @ [y] = A @ filter p (P @ y # Q) \<and> (\<forall>a\<in>set A. \<not> p a)"
proof -
  define F where "F = filter p (P @ y # Q)"
  from sp obtain A B where x: "P @ y # Q = A @ F @ B"
    "\<forall>a\<in>set A. \<not> p a" "\<forall>b\<in>set B. \<not> p b" unfolding F_def by (rule one_spanE)
  have Fp: "\<forall>m\<in>set F. p m" by (auto simp: F_def)
  have "F \<noteq> []" using y by (simp add: F_def)
  then obtain F' z where F: "F = F' @ [z]" by (metis rev_exhaust)
  then have z: "p z" using Fp by simp
  have "P @ y # Q = (A @ F') @ z # B" using x(1) F by simp
  from split_last_unique[OF this y z Q x(3)]
  have "P = A @ F'" "y = z" by simp_all
  then have "P @ [y] = A @ F" using F by simp
  with x(2) show ?thesis unfolding F_def by blast
qed

lemma one_span_insert_after:
  assumes sp: "one_span p (P @ y # Q)" and y: "p y" and Q: "\<forall>q\<in>set Q. \<not> p q"
    and N: "\<forall>n\<in>set N. \<not> p n"
  shows "one_span p (P @ y # N @ Q)"
proof -
  define F where "F = filter p (P @ y # Q)"
  from one_span_last_split[OF sp y Q]
  obtain A where a: "P @ [y] = A @ F" "\<forall>a\<in>set A. \<not> p a" unfolding F_def by blast
  have Fp: "\<forall>m\<in>set F. p m" by (auto simp: F_def)
  have "P @ y # N @ Q = (P @ [y]) @ N @ Q" by simp
  also have "\<dots> = A @ F @ (N @ Q)" using a(1) by simp
  finally have e: "P @ y # N @ Q = A @ F @ (N @ Q)" .
  have "\<forall>b\<in>set (N @ Q). \<not> p b" using Q N by auto
  then show ?thesis
    using a(2) Fp by (intro one_spanI(1)[OF e]) auto
qed

lemma contiguous_iff: "contiguous g xs \<longleftrightarrow> one_span (in_group g) xs"
proof
  assume c: "contiguous g xs"
  have "xs = takeWhile (\<lambda>d. \<not> in_group g d) xs @
      takeWhile (in_group g) (dropWhile (\<lambda>d. \<not> in_group g d) xs) @
      dropWhile (in_group g) (dropWhile (\<lambda>d. \<not> in_group g d) xs)"
    by simp
  then show "one_span (in_group g) xs"
    unfolding one_span_def using c unfolding contiguous_def by metis
next
  assume "one_span (in_group g) xs"
  define F where "F = filter (in_group g) xs"
  from \<open>one_span (in_group g) xs\<close> obtain A B where x: "xs = A @ F @ B"
    "\<forall>a\<in>set A. \<not> in_group g a" "\<forall>b\<in>set B. \<not> in_group g b"
    unfolding F_def by (rule one_spanE)
  have Fp: "\<forall>m\<in>set F. in_group g m" by (auto simp: F_def)
  have d: "dropWhile (\<lambda>d. \<not> in_group g d) xs = dropWhile (\<lambda>d. \<not> in_group g d) (F @ B)"
    using x(1,2) by (metis dropWhile_append2)
  have tB: "takeWhile (in_group g) B = []"
    using x(3) by (cases B) auto
  have "takeWhile (in_group g) (dropWhile (\<lambda>d. \<not> in_group g d) (F @ B)) = F"
  proof (cases "F = []")
    case True
    have "dropWhile (\<lambda>d. \<not> in_group g d) B = []" using x(3) by simp
    then have "takeWhile (in_group g) (dropWhile (\<lambda>d. \<not> in_group g d) B) = []"
      by (simp only: takeWhile.simps)
    then show ?thesis using True by (simp only: append_Nil)
  next
    case False
    then obtain f F' where fF: "F = f # F'" by (cases F) auto
    then have "in_group g f" using Fp by simp
    then have "dropWhile (\<lambda>d. \<not> in_group g d) (F @ B) = F @ B"
      using fF by simp
    moreover have "takeWhile (in_group g) (F @ B) = F"
      using tB Fp by (simp add: takeWhile_append2)
    ultimately show ?thesis by simp
  qed
  then show "contiguous g xs" unfolding contiguous_def d F_def by (rule sym)
qed

section \<open>One pair of the specification on contiguous groups\<close>

lemma in_group_functional: "in_group g d \<Longrightarrow> in_group g' d \<Longrightarrow> g = g'"
  by (simp add: in_group_def)

lemma pop_contiguous:
  assumes hg: "list_all has_group_field xs" and c: "contiguous g xs"
    and ne: "filter (in_group g) xs \<noteq> []"
  shows "pop_group_2 xs g =
           (Inr (filter (in_group g) xs, filter (\<lambda>d. \<not> in_group g d) xs), [])"
proof -
  define F where "F = filter (in_group g) xs"
  from c obtain A B where x: "xs = A @ F @ B"
    "\<forall>a\<in>set A. \<not> in_group g a" "\<forall>b\<in>set B. \<not> in_group g b"
    unfolding contiguous_iff F_def by (rule one_spanE)
  have Fp: "\<forall>m\<in>set F. in_group g m" by (auto simp: F_def)
  have F: "F \<noteq> []" using ne by (simp add: F_def)
  then have hl: "in_group g (hd F)" "in_group g (last F)" using Fp by simp_all
  have hg': "list_all has_group_field (A @ F @ B)" using hg x(1) by simp
  have fA: "filter (\<lambda>d. \<not> in_group g d) A = A"
    by (rule filter_True) (use x(2) in blast)
  have fB: "filter (\<lambda>d. \<not> in_group g d) B = B"
    by (rule filter_True) (use x(3) in blast)
  have fF: "filter (\<lambda>d. \<not> in_group g d) F = []"
    unfolding filter_empty_conv using Fp by blast
  have "filter (\<lambda>d. \<not> in_group g d) (A @ F @ B) = A @ B"
    by (simp only: filter_append fA fB fF append_Nil)
  then have r: "filter (\<lambda>d. \<not> in_group g d) xs = A @ B" using x(1) by simp
  have "pop_group_2 (A @ F @ B) g = (Inr (F, A @ B), [])"
    by (rule pop_span[OF hg' x(2,3) F hl])
  then have "pop_group_2 xs g = (Inr (F, A @ B), [])" using x(1) by simp
  then show ?thesis unfolding r F_def .
qed

lemma pop_absent:
  assumes "list_all has_group_field xs" "filter (in_group g) xs = []"
  shows "pop_group_2 xs g = (Inl (SortingGroupDoesNotExist g), [Warning_group_not_found g])"
  using assms by (intro pop_missing) (auto simp: filter_empty_conv)

lemma insert_absent:
  assumes "list_all has_group_field xs" "filter (in_group g) xs = []"
  shows "insert_group_2_after_group_1 xs g N =
           (Inl (SortingGroupDoesNotExist g), [Warning_group_not_found g])"
  using assms by (intro insert_missing) (auto simp: filter_empty_conv)

lemma last_split_exists:
  assumes "filter p ys \<noteq> []"
  shows "\<exists>P y Q. ys = P @ y # Q \<and> p y \<and> (\<forall>q\<in>set Q. \<not> p q)"
proof -
  from assms have "\<exists>x\<in>set ys. p x" by (simp add: filter_empty_conv)
  from split_list_last_prop[OF this] show ?thesis by blast
qed

lemma prepend_Nil [simp]: "prepend [] r = r"
  by (simp add: prepend_def)

lemma sort_pairs_skip:
  assumes "list_all has_group_field xs" "filter (in_group g2) xs = []"
  shows "sort_pairs ((g1, g2) # ps) xs m =
           prepend [Warning_group_not_found g2] (sort_pairs ps xs (insert g2 m))"
  by (simp add: pop_absent[OF assms])

lemma sort_pairs_drop:
  assumes hg: "list_all has_group_field xs" and c: "contiguous g2 xs"
    and ne: "filter (in_group g2) xs \<noteq> []"
    and g1: "filter (in_group g1) (filter (\<lambda>d. \<not> in_group g2 d) xs) = []"
  shows "sort_pairs ((g1, g2) # ps) xs m =
           prepend [Warning_group_not_found g1]
             (sort_pairs ps (filter (\<lambda>d. \<not> in_group g2 d) xs) (insert g1 m))"
proof -
  have hg': "list_all has_group_field (filter (\<lambda>d. \<not> in_group g2 d) xs)"
    using hg by (simp add: list_all_iff)
  show ?thesis
    by (simp add: pop_contiguous[OF hg c ne] insert_absent[OF hg' g1])
qed

lemma sort_pairs_move:
  assumes hg: "list_all has_group_field xs" and c: "contiguous g2 xs"
    and ne: "filter (in_group g2) xs \<noteq> []"
    and ys: "filter (\<lambda>d. \<not> in_group g2 d) xs = P @ y # Q"
    and y: "in_group g1 y" and Q: "\<forall>q\<in>set Q. \<not> in_group g1 q"
  shows "sort_pairs ((g1, g2) # ps) xs m =
           sort_pairs ps (P @ y # filter (in_group g2) xs @ Q) m"
proof -
  have hg': "list_all has_group_field (P @ y # Q)"
    using hg unfolding ys[symmetric] by (simp add: list_all_iff)
  show ?thesis
    by (simp add: pop_contiguous[OF hg c ne] ys insert_span[OF hg' y Q])
qed

text \<open>Properties of the sequence after a move.\<close>

lemma moved_filter:
  assumes ys: "filter (\<lambda>d. \<not> in_group g2 d) xs = P @ y # Q"
    and r: "\<And>d. r d \<Longrightarrow> \<not> in_group g2 d"
  shows "filter r (P @ y # filter (in_group g2) xs @ Q) = filter r xs"
proof -
  have "filter r (filter (in_group g2) xs) = []"
    using r by (auto simp: filter_empty_conv)
  then have "filter r (P @ y # filter (in_group g2) xs @ Q) = filter r (P @ y # Q)"
    by simp
  also have "\<dots> = filter r (filter (\<lambda>d. \<not> in_group g2 d) xs)" using ys by simp
  also have "\<dots> = filter r xs" using r by (auto intro: filter_cong)
  finally show ?thesis .
qed

lemma moved_group:
  assumes ys: "filter (\<lambda>d. \<not> in_group g2 d) xs = P @ y # Q"
  shows "filter (in_group g) (P @ y # filter (in_group g2) xs @ Q) = filter (in_group g) xs"
proof (cases "g = g2")
  case True
  have "\<forall>d\<in>set (P @ y # Q). \<not> in_group g2 d" unfolding ys[symmetric] by simp
  then have "filter (in_group g2) P = []" "\<not> in_group g2 y" "filter (in_group g2) Q = []"
    by (auto simp: filter_empty_conv)
  then show ?thesis using True by simp
next
  case False
  then show ?thesis
    using in_group_functional by (intro moved_filter[OF ys]) blast
qed

lemma moved_mset:
  assumes ys: "filter (\<lambda>d. \<not> in_group g2 d) xs = P @ y # Q"
  shows "mset (P @ y # filter (in_group g2) xs @ Q) = mset xs"
proof -
  have "mset (P @ y # filter (in_group g2) xs @ Q) =
      mset (filter (in_group g2) xs) + mset (P @ y # Q)" by simp
  also have "\<dots> = mset (filter (in_group g2) xs) + mset (filter (\<lambda>d. \<not> in_group g2 d) xs)"
    using ys by simp
  also have "\<dots> = mset xs" by (simp only: mset_filter multiset_partition[symmetric])
  finally show ?thesis .
qed

lemma moved_contiguous:
  assumes ys: "filter (\<lambda>d. \<not> in_group g2 d) xs = P @ y # Q"
    and y: "in_group g1 y" and Q: "\<forall>q\<in>set Q. \<not> in_group g1 q"
    and c: "contiguous g xs"
  shows "contiguous g (P @ y # filter (in_group g2) xs @ Q)"
proof (cases "g = g2")
  case True
  have free: "\<forall>d\<in>set (P @ y # Q). \<not> in_group g2 d" unfolding ys[symmetric] by simp
  have e: "P @ y # filter (in_group g2) xs @ Q = (P @ [y]) @ filter (in_group g2) xs @ Q"
    by simp
  show ?thesis
    unfolding contiguous_iff True using free by (intro one_spanI(1)[OF e]) auto
next
  case False
  have N: "\<forall>n\<in>set (filter (in_group g2) xs). \<not> in_group g n"
    using False in_group_functional by auto
  have "one_span (in_group g) (filter (\<lambda>d. \<not> in_group g2 d) xs)"
    using c False in_group_functional unfolding contiguous_iff by (intro one_span_filter) blast+
  then have sp: "one_span (in_group g) (P @ y # Q)" using ys by simp
  show ?thesis
  proof (cases "g = g1")
    case True
    show ?thesis unfolding contiguous_iff
      using sp y Q N unfolding True by (rule one_span_insert_after)
  next
    case g1: False
    then have "\<not> in_group g y" using y in_group_functional by blast
    with sp show ?thesis unfolding contiguous_iff using N by (rule one_span_insert_outside)
  qed
qed

section \<open>The order inside a group\<close>

lemma contiguous_absent: "filter (in_group g) xs = [] \<Longrightarrow> contiguous g xs"
  unfolding contiguous_iff one_span_def by (intro exI[of _ xs] exI[of _ "[]"]) simp

lemma filter_other_group:
  "g \<noteq> g2 \<Longrightarrow>
   filter (in_group g) (filter (\<lambda>d. \<not> in_group g2 d) xs) = filter (in_group g) xs"
  using in_group_functional by (auto intro: filter_cong)

lemma dropped_contiguous:
  assumes "contiguous g xs"
  shows "contiguous g (filter (\<lambda>d. \<not> in_group g2 d) xs)"
proof (cases "g = g2")
  case True
  then show ?thesis by (intro contiguous_absent) (simp add: filter_empty_conv)
next
  case False
  then show ?thesis
    using assms in_group_functional unfolding contiguous_iff
    by (intro one_span_filter) blast+
qed

lemma prepend_result:
  "r = (Inr v, l') \<Longrightarrow> prepend l r = (Inr v, l @ l')"
  by (simp add: prepend_def)

lemma sort_pairs_groups:
  assumes "list_all has_group_field xs" "\<forall>g\<in>S. contiguous g xs" "\<forall>p\<in>set ps. snd p \<in> S"
  shows "\<exists>out m' l. sort_pairs ps xs m = (Inr (out, m'), l) \<and>
           (\<forall>g. filter (in_group g) out = filter (in_group g) xs \<or>
                filter (in_group g) out = [])"
  using assms
proof (induction ps arbitrary: xs m)
  case Nil
  then show ?case by simp
next
  case (Cons pr ps)
  obtain g1 g2 where pr: "pr = (g1, g2)" by (cases pr) auto
  have g2S: "g2 \<in> S" using Cons.prems(3) pr by simp
  have rest: "\<forall>p\<in>set ps. snd p \<in> S" using Cons.prems(3) by simp
  have hg: "list_all has_group_field xs" by (rule Cons.prems(1))
  have c2: "contiguous g2 xs" using Cons.prems(2) g2S by blast
  let ?ys = "filter (\<lambda>d. \<not> in_group g2 d) xs"
  show ?case
  proof (cases "filter (in_group g2) xs = []")
    case True
    from Cons.IH[OF hg Cons.prems(2) rest, of "insert g2 m"]
    obtain out m' l where r: "sort_pairs ps xs (insert g2 m) = (Inr (out, m'), l)"
      and k: "\<forall>g. filter (in_group g) out = filter (in_group g) xs \<or>
                filter (in_group g) out = []" by blast
    show ?thesis
      unfolding pr sort_pairs_skip[OF hg True] using prepend_result[OF r] k by blast
  next
    case ne: False
    have hys: "list_all has_group_field ?ys" using hg by (simp add: list_all_iff)
    show ?thesis
    proof (cases "filter (in_group g1) ?ys = []")
      case True
      have cys: "\<forall>g\<in>S. contiguous g ?ys" using Cons.prems(2) dropped_contiguous by blast
      from Cons.IH[OF hys cys rest, of "insert g1 m"]
      obtain out m' l where r: "sort_pairs ps ?ys (insert g1 m) = (Inr (out, m'), l)"
        and k: "\<forall>g. filter (in_group g) out = filter (in_group g) ?ys \<or>
                filter (in_group g) out = []" by blast
      have "\<forall>g. filter (in_group g) out = filter (in_group g) xs \<or>
                filter (in_group g) out = []"
      proof
        fix g
        show "filter (in_group g) out = filter (in_group g) xs \<or> filter (in_group g) out = []"
        proof (cases "g = g2")
          case True
          have "filter (in_group g2) ?ys = []" by (simp add: filter_empty_conv)
          then show ?thesis using k True by metis
        next
          case False
          then show ?thesis using k filter_other_group[OF False, of xs] by metis
        qed
      qed
      then show ?thesis
        unfolding pr sort_pairs_drop[OF hg c2 ne True] using prepend_result[OF r] by blast
    next
      case False
      from last_split_exists[OF False]
      obtain P y Q where ys: "?ys = P @ y # Q" and y: "in_group g1 y"
        and Q: "\<forall>q\<in>set Q. \<not> in_group g1 q" by blast
      let ?out = "P @ y # filter (in_group g2) xs @ Q"
      have "mset ?out = mset xs" by (rule moved_mset[OF ys])
      then have "set ?out = set xs" by (rule mset_eq_setD)
      then have ho: "list_all has_group_field ?out" using hg by (simp add: list_all_iff)
      have co: "\<forall>g\<in>S. contiguous g ?out"
        using Cons.prems(2) moved_contiguous[OF ys y Q] by blast
      from Cons.IH[OF ho co rest, of m]
      obtain out m' l where r: "sort_pairs ps ?out m = (Inr (out, m'), l)"
        and k: "\<forall>g. filter (in_group g) out = filter (in_group g) ?out \<or>
                filter (in_group g) out = []" by blast
      have "\<forall>g. filter (in_group g) out = filter (in_group g) xs \<or>
                filter (in_group g) out = []"
        using k moved_group[OF ys] by metis
      then show ?thesis
        unfolding pr sort_pairs_move[OF hg c2 ne ys y Q] using r by blast
    qed
  qed
qed

text \<open>
  Claim C2, as amended. When every record carries a \<^verbatim>\<open>group\<close> field and every group named
  in the specification is contiguous in the input, the ordering engine returns a
  sequence, and for every group name (named in the specification or not, moved or not)
  the records of the group in the output are the records of the group in the input, in
  the same order, or the output has no record of that group (the group was extracted
  and not put back).
\<close>

theorem intra_group_order_of_contiguous_groups:
  assumes "list_all has_group_field cfg"
    and "list_all (\<lambda>g. contiguous g cfg) names"
  shows "\<exists>out l. get_sorted_custom_config cfg names = (Inr out, l) \<and>
           (\<forall>g. filter (in_group g) out = filter (in_group g) cfg \<or>
                filter (in_group g) out = [])"
proof -
  have c: "\<forall>g\<in>set names. contiguous g cfg" using assms(2) by (simp add: list_all_iff)
  have "set (tl names) \<subseteq> set names" by (cases names) auto
  then have p: "\<forall>p\<in>set (zip names (tl names)). snd p \<in> set names"
    by (auto dest: set_zip_rightD)
  from sort_pairs_groups[OF assms(1) c p, of "{}"]
  obtain out m' l where r: "sort_pairs (zip names (tl names)) cfg {} = (Inr (out, m'), l)"
    and k: "\<forall>g. filter (in_group g) out = filter (in_group g) cfg \<or>
                filter (in_group g) out = []" by blast
  show ?thesis using k by (simp add: get_sorted_custom_config_def r)
qed

lemmas sorter_defs = get_sorted_custom_config_def pop_group_2_def
  insert_group_2_after_group_1_def collect_group_ordering_data_item_def is_found_def
  slice_def prepend_def

theorem intra_group_order_of_contiguous_groups_witness:
  "\<exists>out l. get_sorted_custom_config [x1, y1, y2] [''y'', ''x''] = (Inr out, l) \<and>
           (\<forall>g. filter (in_group g) out = filter (in_group g) [x1, y1, y2] \<or>
                filter (in_group g) out = [])"
  using intra_group_order_of_contiguous_groups[of "[x1, y1, y2]" "[''y'', ''x'']"]
  by (simp add: has_group_field_def contiguous_def in_group_def x1_def y1_def y2_def)

text \<open>
  Claim C2 as stated, without the contiguity precondition, fails: with the groups
  interleaved as x, y, x, y and the specification \<^verbatim>\<open>["y","x"]\<close>, the span extracted for x
  holds a record of y, and the two records of y come out in the opposite order.
\<close>

theorem interleaved_groups_are_reordered:
  "get_sorted_custom_config [x1, y1, x2, y2] [''y'', ''x''] =
     (Inr [y2, x1, y1, x2], [Info_sorted_groups [''y'', ''x'']]) \<and>
   filter (in_group ''y'') [y2, x1, y1, x2] = [y2, y1] \<and>
   filter (in_group ''y'') [x1, y1, x2, y2] = [y1, y2] \<and>
   [y2, y1] \<noteq> [y1, y2]"
  by (simp add: sorter_defs in_group_def x1_def y1_def x2_def y2_def)

section \<open>A chain of groups\<close>

lemma adjacent_Cons: "zs \<noteq> [] \<Longrightarrow> zip (z # zs) zs = (z, hd zs) # zip zs (tl zs)"
  by (cases zs) simp_all

lemma adjacent_snoc:
  "zip (zs @ [a, b]) (tl (zs @ [a, b])) = zip (zs @ [a]) (tl (zs @ [a])) @ [(a, b)]"
proof (induction zs)
  case Nil
  then show ?case by simp
next
  case (Cons z zs)
  have h: "hd (zs @ [a, b]) = hd (zs @ [a])" by (cases zs) simp_all
  have "zip ((z # zs) @ [a, b]) (tl ((z # zs) @ [a, b])) = zip (z # (zs @ [a, b])) (zs @ [a, b])"
    by simp
  also have "\<dots> = (z, hd (zs @ [a, b])) # zip (zs @ [a, b]) (tl (zs @ [a, b]))"
    by (rule adjacent_Cons) simp
  also have "\<dots> = (z, hd (zs @ [a])) # zip (zs @ [a]) (tl (zs @ [a])) @ [(a, b)]"
    using Cons.IH h by simp
  also have "\<dots> = zip (z # (zs @ [a])) (zs @ [a]) @ [(a, b)]"
    using adjacent_Cons[of "zs @ [a]" z] by simp
  finally show ?case by simp
qed

lemma adjacent_members:
  assumes "(a, b) \<in> set (zip zs (tl zs))"
  shows "a \<in> set (butlast zs) \<and> b \<in> set zs \<and> (distinct zs \<longrightarrow> a \<noteq> b)"
proof -
  from assms have "\<exists>i. a = zs ! i \<and> b = tl zs ! i \<and> i < min (length zs) (length (tl zs))"
    unfolding set_zip by blast
  then obtain i where
    ii: "a = zs ! i \<and> b = tl zs ! i \<and> i < min (length zs) (length (tl zs))" by blast
  then have i: "i < length zs" "i < length (tl zs)" "a = zs ! i" "b = tl zs ! i"
    by auto
  have li: "Suc i < length zs" using i(2) by simp
  have b: "b = zs ! Suc i" using i(4) li by (simp add: nth_tl)
  have "a = butlast zs ! i" using i(3) li by (simp add: nth_butlast)
  then have "a \<in> set (butlast zs)" using li by (metis length_butlast less_diff_conv nth_mem Suc_eq_plus1)
  moreover have "b \<in> set zs" using b li by simp
  moreover have "distinct zs \<longrightarrow> a \<noteq> b"
    using i(3) b li by (auto simp: nth_eq_iff_index_eq)
  ultimately show ?thesis by blast
qed

lemma disjoint_groups_distinct:
  assumes "disjoint_groups gs xs" "\<forall>g\<in>set gs. filter (in_group g) xs \<noteq> []"
  shows "distinct gs"
  using assms
proof (induction gs)
  case Nil
  then show ?case by simp
next
  case (Cons g gs)
  have "g \<notin> set gs"
  proof
    assume "g \<in> set gs"
    then have "\<not> list_ex (\<lambda>d. in_group g d \<and> in_group g d) xs"
      using Cons.prems(1) by (auto simp: list_all_iff)
    then have "filter (in_group g) xs = []" by (auto simp: list_ex_iff filter_empty_conv)
    then show False using Cons.prems(2) by simp
  qed
  then show ?case using Cons by simp
qed

lemma follows_iff_span:
  assumes "a \<noteq> b"
  shows "(\<exists>A B. xs = A @ filter (in_group a) xs @ filter (in_group b) xs @ B) \<longleftrightarrow>
         (one_span (in_pair a b) xs \<and>
          filter (in_pair a b) xs = filter (in_group a) xs @ filter (in_group b) xs)"
proof
  assume "\<exists>A B. xs = A @ filter (in_group a) xs @ filter (in_group b) xs @ B"
  then obtain A B where x: "xs = A @ filter (in_group a) xs @ filter (in_group b) xs @ B"
    by blast
  define Fa where "Fa = filter (in_group a) xs"
  define Fb where "Fb = filter (in_group b) xs"
  have x': "xs = A @ Fa @ Fb @ B" using x Fa_def Fb_def by simp
  have "xs = A @ filter (in_group a) xs @ (Fb @ B)" using x Fb_def by simp
  from span_sides_free[OF this]
  have a: "filter (in_group a) A = []" "filter (in_group a) B = []" by simp_all
  have "xs = (A @ Fa) @ filter (in_group b) xs @ B" using x Fa_def by simp
  from span_sides_free[OF this]
  have b: "filter (in_group b) A = []" "filter (in_group b) B = []" by simp_all
  have fA: "\<forall>d\<in>set A. \<not> in_pair a b d" using a(1) b(1)
    by (auto simp: in_pair_def filter_empty_conv)
  have fB: "\<forall>d\<in>set B. \<not> in_pair a b d" using a(2) b(2)
    by (auto simp: in_pair_def filter_empty_conv)
  have fM: "\<forall>d\<in>set (Fa @ Fb). in_pair a b d"
    by (auto simp: in_pair_def Fa_def Fb_def)
  have e: "xs = A @ (Fa @ Fb) @ B" using x' by simp
  from one_spanI[OF e fA fB fM]
  show "one_span (in_pair a b) xs \<and>
          filter (in_pair a b) xs = filter (in_group a) xs @ filter (in_group b) xs"
    unfolding Fa_def Fb_def by blast
next
  assume "one_span (in_pair a b) xs \<and>
          filter (in_pair a b) xs = filter (in_group a) xs @ filter (in_group b) xs"
  then show "\<exists>A B. xs = A @ filter (in_group a) xs @ filter (in_group b) xs @ B"
    unfolding one_span_def by (metis append.assoc)
qed

lemma moved_follows:
  assumes ys: "filter (\<lambda>d. \<not> in_group g2 d) xs = P @ y # Q"
    and y: "in_group g1 y" and Q: "\<forall>q\<in>set Q. \<not> in_group g1 q"
    and c: "contiguous g1 xs" and ne: "filter (in_group g2) xs \<noteq> []"
  shows "follows_immediately g1 g2 (P @ y # filter (in_group g2) xs @ Q)"
proof -
  let ?out = "P @ y # filter (in_group g2) xs @ Q"
  have "\<not> in_group g2 y"
  proof -
    have "y \<in> set (filter (\<lambda>d. \<not> in_group g2 d) xs)" unfolding ys by simp
    then show ?thesis by simp
  qed
  then have neq: "g1 \<noteq> g2" using y by blast
  have "one_span (in_group g1) (filter (\<lambda>d. \<not> in_group g2 d) xs)"
    using c neq in_group_functional unfolding contiguous_iff by (intro one_span_filter) blast+
  then have sp: "one_span (in_group g1) (P @ y # Q)" using ys by simp
  from one_span_last_split[OF sp y Q]
  obtain A where a: "P @ [y] = A @ filter (in_group g1) (P @ y # Q)" by blast
  have f1: "filter (in_group g1) (P @ y # Q) = filter (in_group g1) ?out"
    using moved_group[OF ys, of g1] filter_other_group[OF neq, of xs] ys by simp
  have f2: "filter (in_group g2) xs = filter (in_group g2) ?out"
    using moved_group[OF ys, of g2] by simp
  have "?out = (P @ [y]) @ filter (in_group g2) xs @ Q" by simp
  also have "\<dots> = A @ filter (in_group g1) (P @ y # Q) @ filter (in_group g2) xs @ Q"
    using a by simp
  finally have e: "?out = A @ filter (in_group g1) ?out @ filter (in_group g2) ?out @ Q"
    using f1 f2 by simp
  have n1: "filter (in_group g1) ?out \<noteq> []" using y by (simp add: filter_empty_conv)
  have n2: "filter (in_group g2) ?out \<noteq> []" using ne f2 by simp
  show ?thesis unfolding follows_immediately_def using n1 n2 e by blast
qed

lemma moved_keeps_follows:
  assumes ys: "filter (\<lambda>d. \<not> in_group g2 d) xs = P @ y # Q"
    and y: "in_group g1 y" and Q: "\<forall>q\<in>set Q. \<not> in_group g1 q"
    and f: "follows_immediately a b xs"
    and ab: "a \<noteq> b" and g2: "g2 \<noteq> a" "g2 \<noteq> b" and g1: "g1 \<noteq> a"
  shows "follows_immediately a b (P @ y # filter (in_group g2) xs @ Q)"
proof -
  let ?N = "filter (in_group g2) xs"
  let ?out = "P @ y # ?N @ Q"
  have pr: "\<And>d. in_pair a b d \<Longrightarrow> \<not> in_group g2 d"
    using g2 in_group_functional unfolding in_pair_def by blast
  from f have sx: "one_span (in_pair a b) xs"
    and fx: "filter (in_pair a b) xs = filter (in_group a) xs @ filter (in_group b) xs"
    unfolding follows_immediately_def using follows_iff_span[OF ab, of xs] by blast+
  have "one_span (in_pair a b) (filter (\<lambda>d. \<not> in_group g2 d) xs)"
    using sx pr by (rule one_span_filter)
  then have sp: "one_span (in_pair a b) (P @ y # Q)" using ys by simp
  have N: "\<forall>n\<in>set ?N. \<not> in_pair a b n" using pr by auto
  have fy: "filter (in_pair a b) (P @ y # Q) = filter (in_pair a b) xs"
  proof -
    have "filter (in_pair a b) (filter (\<lambda>d. \<not> in_group g2 d) xs) = filter (in_pair a b) xs"
      using pr by (auto intro: filter_cong)
    then show ?thesis using ys by simp
  qed
  have so: "one_span (in_pair a b) ?out"
  proof (cases "g1 = b")
    case True
    define F where "F = filter (in_pair a b) (P @ y # Q)"
    from sp obtain A B where x: "P @ y # Q = A @ F @ B"
      "\<forall>d\<in>set A. \<not> in_pair a b d" "\<forall>d\<in>set B. \<not> in_pair a b d"
      unfolding F_def by (rule one_spanE)
    have Fe: "F = filter (in_group a) xs @ filter (in_group b) xs"
      unfolding F_def fy fx ..
    have "filter (in_group b) xs \<noteq> []"
      using f unfolding follows_immediately_def by blast
    then obtain Fb z where Fb: "filter (in_group b) xs = Fb @ [z]" by (metis rev_exhaust)
    then have "z \<in> set (filter (in_group b) xs)" by simp
    then have z: "in_group b z" by simp
    have e: "P @ y # Q = (A @ filter (in_group a) xs @ Fb) @ z # B"
      using x(1) Fe Fb by simp
    have Bb: "\<forall>q\<in>set B. \<not> in_group b q" using x(3) unfolding in_pair_def by blast
    have yb: "in_group b y" and Qb: "\<forall>q\<in>set Q. \<not> in_group b q" using y Q True by simp_all
    from split_last_unique[OF e yb z Qb Bb] have "Q = B" by simp
    then have Qp: "\<forall>q\<in>set Q. \<not> in_pair a b q" using x(3) by simp
    have yp: "in_pair a b y" using yb unfolding in_pair_def by simp
    show ?thesis using sp yp Qp N by (rule one_span_insert_after)
  next
    case False
    then have "\<not> in_pair a b y"
      using y g1 in_group_functional unfolding in_pair_def by blast
    with sp show ?thesis using N by (rule one_span_insert_outside)
  qed
  have fo: "filter (in_pair a b) ?out = filter (in_pair a b) xs"
    using pr by (intro moved_filter[OF ys]) blast
  have ga: "filter (in_group a) ?out = filter (in_group a) xs"
    and gb: "filter (in_group b) ?out = filter (in_group b) xs"
    using moved_group[OF ys] by blast+
  have "one_span (in_pair a b) ?out \<and>
      filter (in_pair a b) ?out = filter (in_group a) ?out @ filter (in_group b) ?out"
    using so fo fx ga gb by simp
  then have "\<exists>A B. ?out = A @ filter (in_group a) ?out @ filter (in_group b) ?out @ B"
    using follows_iff_span[OF ab, of ?out] by blast
  moreover have "filter (in_group a) ?out \<noteq> []" "filter (in_group b) ?out \<noteq> []"
    using f ga gb unfolding follows_immediately_def by simp_all
  ultimately show ?thesis unfolding follows_immediately_def by blast
qed

lemma sort_pairs_chain:
  assumes "list_all has_group_field xs"
    and "distinct (pre @ g # gs)"
    and "\<forall>h\<in>set (pre @ g # gs). contiguous h xs \<and> filter (in_group h) xs \<noteq> []"
    and "\<forall>p\<in>set (zip (pre @ [g]) (tl (pre @ [g]))). follows_immediately (fst p) (snd p) xs"
  shows "\<exists>out m' l. sort_pairs (zip (g # gs) gs) xs m = (Inr (out, m'), l) \<and>
           mset out = mset xs \<and>
           (\<forall>p\<in>set (zip (pre @ g # gs) (tl (pre @ g # gs))).
              follows_immediately (fst p) (snd p) out)"
  using assms
proof (induction gs arbitrary: pre g xs m)
  case Nil
  then show ?case by simp
next
  case (Cons g' gs)
  have hg: "list_all has_group_field xs" by (rule Cons.prems(1))
  have d: "distinct (pre @ g # g' # gs)" by (rule Cons.prems(2))
  have c2: "contiguous g' xs" and ne: "filter (in_group g') xs \<noteq> []"
    and c1: "contiguous g xs" and n1: "filter (in_group g) xs \<noteq> []"
    using Cons.prems(3) by simp_all
  have neq: "g \<noteq> g'" using d by auto
  let ?ys = "filter (\<lambda>d. \<not> in_group g' d) xs"
  have "filter (in_group g) ?ys \<noteq> []" using n1 filter_other_group[OF neq, of xs] by simp
  from last_split_exists[OF this]
  obtain P y Q where ys: "?ys = P @ y # Q" and y: "in_group g y"
    and Q: "\<forall>q\<in>set Q. \<not> in_group g q" by blast
  let ?out = "P @ y # filter (in_group g') xs @ Q"
  have ms: "mset ?out = mset xs" by (rule moved_mset[OF ys])
  then have "set ?out = set xs" by (rule mset_eq_setD)
  then have ho: "list_all has_group_field ?out" using hg by (simp add: list_all_iff)
  have d': "distinct ((pre @ [g]) @ g' # gs)" using d by simp
  have co: "\<forall>h\<in>set ((pre @ [g]) @ g' # gs).
      contiguous h ?out \<and> filter (in_group h) ?out \<noteq> []"
    using Cons.prems(3) moved_contiguous[OF ys y Q] moved_group[OF ys] by simp
  have fo: "\<forall>p\<in>set (zip ((pre @ [g]) @ [g']) (tl ((pre @ [g]) @ [g']))).
      follows_immediately (fst p) (snd p) ?out"
  proof
    fix p
    assume "p \<in> set (zip ((pre @ [g]) @ [g']) (tl ((pre @ [g]) @ [g'])))"
    then have "p \<in> set (zip (pre @ [g]) (tl (pre @ [g]))) \<or> p = (g, g')"
      using adjacent_snoc[of pre g g'] by auto
    then show "follows_immediately (fst p) (snd p) ?out"
    proof
      assume p: "p \<in> set (zip (pre @ [g]) (tl (pre @ [g])))"
      obtain a b where ab: "p = (a, b)" by (cases p) auto
      from adjacent_members[of a b "pre @ [g]"] p ab d
      have m: "a \<in> set pre" "b \<in> set (pre @ [g])" "a \<noteq> b" by auto
      have fx: "follows_immediately a b xs" using Cons.prems(4) p ab by auto
      have "g' \<noteq> a" "g' \<noteq> b" "g \<noteq> a" using m d by auto
      from moved_keeps_follows[OF ys y Q fx m(3) this]
      show ?thesis using ab by simp
    next
      assume "p = (g, g')"
      then show ?thesis using moved_follows[OF ys y Q c1 ne] by simp
    qed
  qed
  from Cons.IH[OF ho d' co fo, of m]
  obtain out m' l where r: "sort_pairs (zip (g' # gs) gs) ?out m = (Inr (out, m'), l)"
    and mo: "mset out = mset ?out"
    and k: "\<forall>p\<in>set (zip ((pre @ [g]) @ g' # gs) (tl ((pre @ [g]) @ g' # gs))).
              follows_immediately (fst p) (snd p) out" by blast
  have "sort_pairs (zip (g # g' # gs) (g' # gs)) xs m = sort_pairs (zip (g' # gs) gs) ?out m"
    using sort_pairs_move[OF hg c2 ne ys y Q] by simp
  then show ?case using r mo ms k by simp
qed

text \<open>
  Claim C1. When every record carries a \<^verbatim>\<open>group\<close> field, every group named in the
  specification has a record, the groups named at different positions share no record,
  and every named group is contiguous in the input, the ordering engine returns a
  sequence that is a permutation of the input (the same records, each as often as in
  the input) and in which, for every adjacent pair (G1, G2) of the specification, the
  span of the records of G2 immediately follows the span of the records of G1.
\<close>

theorem chain_of_contiguous_groups_is_laid_out:
  assumes "list_all has_group_field cfg"
    and "list_all (\<lambda>g. list_ex (in_group g) cfg) names"
    and "disjoint_groups names cfg"
    and "list_all (\<lambda>g. contiguous g cfg) names"
  shows "\<exists>out l. get_sorted_custom_config cfg names = (Inr out, l) \<and>
           mset out = mset cfg \<and>
           list_all (\<lambda>p. follows_immediately (fst p) (snd p) out) (zip names (tl names))"
proof (cases names)
  case Nil
  then show ?thesis by (simp add: get_sorted_custom_config_def)
next
  case (Cons g gs)
  have ex: "\<forall>h\<in>set names. filter (in_group h) cfg \<noteq> []"
    using assms(2) by (auto simp: list_all_iff list_ex_iff filter_empty_conv)
  have d: "distinct ([] @ g # gs)"
    using disjoint_groups_distinct[OF assms(3) ex] Cons by simp
  have c: "\<forall>h\<in>set ([] @ g # gs). contiguous h cfg \<and> filter (in_group h) cfg \<noteq> []"
    using assms(4) ex Cons by (simp add: list_all_iff)
  have f: "\<forall>p\<in>set (zip ([] @ [g]) (tl ([] @ [g]))). follows_immediately (fst p) (snd p) cfg"
    by simp
  from sort_pairs_chain[OF assms(1) d c f, of "{}"]
  obtain out m' l where r: "sort_pairs (zip (g # gs) gs) cfg {} = (Inr (out, m'), l)"
    and mo: "mset out = mset cfg"
    and k: "\<forall>p\<in>set (zip (g # gs) gs). follows_immediately (fst p) (snd p) out" by auto
  show ?thesis
    using mo k by (simp add: get_sorted_custom_config_def Cons r list_all_iff)
qed

lemma sort_chain_example:
  "get_sorted_custom_config [z1, x1, x2, y1, y2] [''y'', ''x'', ''z''] =
   (Inr [y1, y2, x1, x2, z1], [Info_sorted_groups [''y'', ''x'', ''z'']])"
  by (simp add: sorter_defs x1_def y1_def x2_def y2_def z1_def)

theorem chain_of_contiguous_groups_is_laid_out_witness:
  "get_sorted_custom_config [z1, x1, x2, y1, y2] [''y'', ''x'', ''z''] =
     (Inr [y1, y2, x1, x2, z1], [Info_sorted_groups [''y'', ''x'', ''z'']]) \<and>
   mset [y1, y2, x1, x2, z1] = mset [z1, x1, x2, y1, y2] \<and>
   follows_immediately ''y'' ''x'' [y1, y2, x1, x2, z1] \<and>
   follows_immediately ''x'' ''z'' [y1, y2, x1, x2, z1]"
proof -
  have h: "list_all has_group_field [z1, x1, x2, y1, y2]"
    "list_all (\<lambda>g. list_ex (in_group g) [z1, x1, x2, y1, y2]) [''y'', ''x'', ''z'']"
    "disjoint_groups [''y'', ''x'', ''z''] [z1, x1, x2, y1, y2]"
    "list_all (\<lambda>g. contiguous g [z1, x1, x2, y1, y2]) [''y'', ''x'', ''z'']"
    by (simp_all add: has_group_field_def contiguous_def in_group_def
        x1_def y1_def x2_def y2_def z1_def)
  from chain_of_contiguous_groups_is_laid_out[OF h]
  show ?thesis unfolding sort_chain_example by simp
qed

section \<open>A specification that names an absent group\<close>

lemma absent_filter: "absent xs g \<longleftrightarrow> filter (in_group g) xs = []"
  by (auto simp: absent_def list_ex_iff filter_empty_conv)

lemma absent_subset: "absent xs g \<Longrightarrow> set ys \<subseteq> set xs \<Longrightarrow> absent ys g"
  by (auto simp: absent_def list_ex_iff)

lemma pop_cases:
  assumes hg: "list_all has_group_field xs"
  shows "(absent xs g \<and>
          pop_group_2 xs g = (Inl (SortingGroupDoesNotExist g), [Warning_group_not_found g])) \<or>
         (\<not> absent xs g \<and> (\<exists>M ys. pop_group_2 xs g = (Inr (M, ys), []) \<and>
             set ys \<subseteq> set xs \<and> set M \<subseteq> set xs))"
proof (cases "absent xs g")
  case True
  then show ?thesis using pop_absent[OF hg] by (simp add: absent_filter)
next
  case False
  then have "\<exists>x\<in>set xs. in_group g x" by (simp add: absent_def list_ex_iff)
  from span_exists[OF this]
  obtain A M B where dec: "xs = A @ M @ B"
      "\<forall>x\<in>set A. \<not> in_group g x" "\<forall>x\<in>set B. \<not> in_group g x"
      "M \<noteq> []" "in_group g (hd M)" "in_group g (last M)"
    by blast
  have hg': "list_all has_group_field (A @ M @ B)" using hg dec(1) by simp
  have "pop_group_2 xs g = (Inr (M, A @ B), [])"
    unfolding dec(1) by (rule pop_span[OF hg' dec(2-6)])
  moreover have "set (A @ B) \<subseteq> set xs" "set M \<subseteq> set xs" using dec(1) by auto
  ultimately show ?thesis using False by blast
qed

lemma insert_cases:
  assumes hg: "list_all has_group_field ys"
  shows "(absent ys g \<and>
          insert_group_2_after_group_1 ys g N =
            (Inl (SortingGroupDoesNotExist g), [Warning_group_not_found g])) \<or>
         (\<exists>out. insert_group_2_after_group_1 ys g N = (Inr out, []) \<and>
             set out = set ys \<union> set N)"
proof (cases "absent ys g")
  case True
  then show ?thesis using insert_absent[OF hg] by (simp add: absent_filter)
next
  case False
  then have "filter (in_group g) ys \<noteq> []" by (simp add: absent_filter)
  from last_split_exists[OF this]
  obtain P y Q where d: "ys = P @ y # Q" "in_group g y" "\<forall>q\<in>set Q. \<not> in_group g q" by blast
  have hg': "list_all has_group_field (P @ y # Q)" using hg d(1) by simp
  have "insert_group_2_after_group_1 ys g N = (Inr (P @ y # N @ Q), [])"
    unfolding d(1) by (rule insert_span[OF hg' d(2,3)])
  moreover have "set (P @ y # N @ Q) = set ys \<union> set N" using d(1) by auto
  ultimately show ?thesis by blast
qed

text \<open>One pass of the loop body: the result, what it logs and the sequence it leaves.\<close>

lemma sort_pairs_step:
  assumes hg: "list_all has_group_field xs"
  shows "\<exists>xs' m' l. sort_pairs ((g1, g2) # ps) xs m = prepend l (sort_pairs ps xs' m') \<and>
           set xs' \<subseteq> set xs \<and>
           (absent xs g2 \<longrightarrow> xs' = xs \<and> l = [Warning_group_not_found g2]) \<and>
           (\<not> absent xs g2 \<longrightarrow> absent xs g1 \<longrightarrow> l = [Warning_group_not_found g1])"
proof -
  from pop_cases[OF hg, of g2]
  show ?thesis
  proof
    assume a: "absent xs g2 \<and>
          pop_group_2 xs g2 = (Inl (SortingGroupDoesNotExist g2), [Warning_group_not_found g2])"
    then show ?thesis by (intro exI[of _ xs] exI[of _ "insert g2 m"]
          exI[of _ "[Warning_group_not_found g2]"]) simp
  next
    assume "\<not> absent xs g2 \<and> (\<exists>M ys. pop_group_2 xs g2 = (Inr (M, ys), []) \<and>
             set ys \<subseteq> set xs \<and> set M \<subseteq> set xs)"
    then obtain M ys where p: "\<not> absent xs g2" "pop_group_2 xs g2 = (Inr (M, ys), [])"
      "set ys \<subseteq> set xs" "set M \<subseteq> set xs" by blast
    have hy: "list_all has_group_field ys" using hg p(3) by (auto simp: list_all_iff)
    from insert_cases[OF hy, of g1 M]
    show ?thesis
    proof
      assume i: "absent ys g1 \<and> insert_group_2_after_group_1 ys g1 M =
            (Inl (SortingGroupDoesNotExist g1), [Warning_group_not_found g1])"
      show ?thesis using p i
        by (intro exI[of _ ys] exI[of _ "insert g1 m"]
          exI[of _ "[Warning_group_not_found g1]"]) simp
    next
      assume "\<exists>out. insert_group_2_after_group_1 ys g1 M = (Inr out, []) \<and>
             set out = set ys \<union> set M"
      then obtain out where i: "insert_group_2_after_group_1 ys g1 M = (Inr out, [])"
        "set out = set ys \<union> set M" by blast
      have "\<not> absent xs g1"
      proof
        assume "absent xs g1"
        then have "absent ys g1" using p(3) by (rule absent_subset)
        then have "insert_group_2_after_group_1 ys g1 M =
            (Inl (SortingGroupDoesNotExist g1), [Warning_group_not_found g1])"
          using insert_absent[OF hy] by (simp add: absent_filter)
        then show False using i(1) by simp
      qed
      then show ?thesis using p i
        by (intro exI[of _ out] exI[of _ m] exI[of _ "[]"]) auto
    qed
  qed
qed

lemma sort_pairs_total:
  assumes "list_all has_group_field xs"
  shows "\<exists>out m' l. sort_pairs ps xs m = (Inr (out, m'), l) \<and> set out \<subseteq> set xs"
  using assms
proof (induction ps arbitrary: xs m)
  case Nil
  then show ?case by simp
next
  case (Cons pr ps)
  obtain g1 g2 where pr: "pr = (g1, g2)" by (cases pr) auto
  from sort_pairs_step[OF Cons.prems, of g1 g2 ps m]
  obtain xs' m1 l where s: "sort_pairs ((g1, g2) # ps) xs m = prepend l (sort_pairs ps xs' m1)"
    "set xs' \<subseteq> set xs" by blast
  have "list_all has_group_field xs'" using Cons.prems s(2) by (auto simp: list_all_iff)
  from Cons.IH[OF this, of m1]
  obtain out m' l' where r: "sort_pairs ps xs' m1 = (Inr (out, m'), l')" "set out \<subseteq> set xs'"
    by blast
  show ?case unfolding pr s(1) using prepend_result[OF r(1)] r(2) s(2) by blast
qed

lemma sort_pairs_warns_second:
  assumes "list_all has_group_field xs" "absent xs z" "(a, z) \<in> set ps"
  shows "Warning_group_not_found z \<in> set (snd (sort_pairs ps xs m))"
  using assms
proof (induction ps arbitrary: xs m)
  case Nil
  then show ?case by simp
next
  case (Cons pr ps)
  obtain g1 g2 where pr: "pr = (g1, g2)" by (cases pr) auto
  from sort_pairs_step[OF Cons.prems(1), of g1 g2 ps m]
  obtain xs' m1 l where s: "sort_pairs ((g1, g2) # ps) xs m = prepend l (sort_pairs ps xs' m1)"
    "set xs' \<subseteq> set xs" "absent xs g2 \<longrightarrow> xs' = xs \<and> l = [Warning_group_not_found g2]"
    by blast
  show ?case
  proof (cases "pr = (a, z)")
    case True
    then have "l = [Warning_group_not_found z]" using s(3) pr Cons.prems(2) by simp
    then show ?thesis unfolding pr s(1) by (simp add: prepend_def)
  next
    case False
    then have in_ps: "(a, z) \<in> set ps" using Cons.prems(3) by simp
    have h': "list_all has_group_field xs'" using Cons.prems(1) s(2) by (auto simp: list_all_iff)
    have a': "absent xs' z" using Cons.prems(2) s(2) by (rule absent_subset)
    from Cons.IH[OF h' a' in_ps, of m1]
    show ?thesis unfolding pr s(1) by (simp add: prepend_def)
  qed
qed

lemma sort_pairs_warns_first:
  assumes "list_all has_group_field xs" "absent xs z"
  shows "\<exists>w. absent xs w \<and> Warning_group_not_found w \<in> set (snd (sort_pairs ((z, b) # ps) xs m))"
proof -
  from sort_pairs_step[OF assms(1), of z b ps m]
  obtain xs' m1 l where s: "sort_pairs ((z, b) # ps) xs m = prepend l (sort_pairs ps xs' m1)"
    "absent xs b \<longrightarrow> xs' = xs \<and> l = [Warning_group_not_found b]"
    "\<not> absent xs b \<longrightarrow> absent xs z \<longrightarrow> l = [Warning_group_not_found z]"
    by blast
  show ?thesis
  proof (cases "absent xs b")
    case True
    then show ?thesis unfolding s(1) using s(2) by (intro exI[of _ b]) (simp add: prepend_def)
  next
    case False
    then show ?thesis unfolding s(1) using s(3) assms(2)
      by (intro exI[of _ z]) (simp add: prepend_def)
  qed
qed

lemma sort_pairs_all_skipped:
  assumes "list_all has_group_field xs" "\<forall>p\<in>set ps. absent xs (snd p)"
  shows "fst (sort_pairs ps xs m) = Inr (xs, m \<union> snd ` set ps)"
  using assms
proof (induction ps arbitrary: m)
  case Nil
  then show ?case by simp
next
  case (Cons pr ps)
  obtain g1 g2 where pr: "pr = (g1, g2)" by (cases pr) auto
  have a: "filter (in_group g2) xs = []" using Cons.prems(2) pr by (simp add: absent_filter)
  have "fst (sort_pairs ps xs (insert g2 m)) = Inr (xs, insert g2 m \<union> snd ` set ps)"
    using Cons.IH[of "insert g2 m"] Cons.prems by simp
  then show ?case
    unfolding pr sort_pairs_skip[OF Cons.prems(1) a] by (simp add: prepend_def)
qed

lemma plain_record_key:
  "plain_record d \<longleftrightarrow> (\<exists>k. subscript_group d = Inr k \<and> plain_key k)"
  by (cases "subscript_group d")
     (auto simp: plain_record_def split: json.splits elim: plain_key.elims)

lemma plain_record_has_group: "plain_record d \<Longrightarrow> has_group_field d"
  by (auto simp: plain_record_key has_group_field_def)

lemma plain_key_cases: "plain_key k \<Longrightarrow> hashable k \<and> is_JStr k"
  by (cases k) simp_all

lemma append_to_group_keys:
  assumes "list_all plain_key (map fst groups)" "plain_key k"
  shows "list_all plain_key (map fst (append_to_group groups k obj))"
proof (cases "map_of groups k")
  case None
  then show ?thesis using assms by (simp add: append_to_group_def)
next
  case (Some objs)
  then have "k \<in> set (map fst groups)" by (metis map_of_eq_None_iff option.distinct(1) set_map)
  then have "map fst (AList.update k (objs @ [obj]) groups) = map fst groups"
    by (simp add: update_keys)
  then show ?thesis using assms(1) Some by (simp add: append_to_group_def)
qed

lemma partition_groups_plain:
  assumes "list_all plain_record xs" "list_all plain_key (map fst groups)"
  shows "\<exists>groups'. partition_groups xs groups = Inr groups' \<and>
           list_all plain_key (map fst groups')"
  using assms
proof (induction xs arbitrary: groups)
  case Nil
  then show ?case by simp
next
  case (Cons d xs)
  from Cons.prems(1) obtain k where k: "subscript_group d = Inr k" "plain_key k"
    by (auto simp: plain_record_key)
  have h: "hashable k" using k(2) plain_key_cases by blast
  have "list_all plain_key (map fst (append_to_group groups k d))"
    by (rule append_to_group_keys[OF Cons.prems(2) k(2)])
  from Cons.IH[OF _ this] Cons.prems(1)
  show ?case by (simp add: k(1) h)
qed

lemma stage_groups_plain:
  assumes "list_all plain_key (map fst groups)"
  shows "\<exists>staged. stage_groups groups dir = Inr staged"
  using assms
proof (induction groups arbitrary: dir)
  case Nil
  then show ?case by simp
next
  case (Cons kv groups)
  obtain k objs where kv: "kv = (k, objs)" by (cases kv) auto
  from Cons.prems kv obtain s where s: "k = JStr s" "plain_stem s"
    by (cases k) auto
  from Cons.IH[of "AList.update (s @ ''.json'') (JArr objs) dir"] Cons.prems
  show ?case by (simp add: kv s)
qed

lemma recreate_without_fault:
  assumes pl: "list_all plain_record (custom_config self)"
    and o: "order_json fs = Some backup_order" and g: "groups_directory fs = Some backup_groups"
  shows "\<exists>fs' l. recreate_custom_config_files No_fault self fs = (Inr (), fs', l) \<and>
           main_json fs' = main_json fs \<and> config_json fs' = config_json fs"
proof -
  from partition_groups_plain[OF pl, of "[]"]
  obtain groups where p: "partition_groups (custom_config self) [] = Inr groups"
    "list_all plain_key (map fst groups)" by auto
  from stage_groups_plain[OF p(2), of "[]"]
  obtain staged where s: "stage_groups groups [] = Inr staged" by blast
  have j: "list_all is_JStr (map fst groups)"
    using p(2) plain_key_cases by (auto simp: list_all_iff)
  show ?thesis
    by (simp add: recreate_custom_config_files_def p(1) s j o g Let_def replace_live_store_def)
qed

lemma second_of_some_pair:
  assumes "z \<in> set (tl names)"
  shows "\<exists>a. (a, z) \<in> set (zip names (tl names))"
proof -
  from assms obtain i where i: "i < length (tl names)" "tl names ! i = z"
    by (auto simp: in_set_conv_nth)
  have "(names ! i, tl names ! i) \<in> set (zip names (tl names))"
    using i(1) by (auto simp: set_zip)
  then show ?thesis using i(2) by blast
qed

text \<open>
  Claim C4, as amended. In a run without an injected exception, when the main config and
  the fragments load, the groups directory exists, every record carries a \<^verbatim>\<open>group\<close> that
  is a plain string, and the order manifest has at least two names of which one has no
  record in the fragment data: the run succeeds, a warning is logged that names a group
  without a record in the fragment data, and the merged document is written, with the
  main config's keys and the sequence the ordering engine returned. When no name of the
  specification after the first has a record (every pair is skipped at the extraction of
  its second group), that sequence is the input sequence, unchanged.
\<close>

theorem run_with_absent_group:
  assumes lm: "load_main_config new_JsonCompiler fs = (Inr self1, l1)"
    and lc: "load_custom_config self1 fs = (Inr self2, l2)"
    and gd: "groups_directory fs \<noteq> None"
    and pl: "list_all plain_record (custom_config self2)"
    and od: "order_json fs = Some names" and len: "2 \<le> length names"
    and ab: "list_ex (absent (custom_config self2)) names"
  shows "\<exists>fs' l sorted_config.
      run No_fault fs = (Inr (), fs', l) \<and>
      (\<exists>w. absent (custom_config self2) w \<and> Warning_group_not_found w \<in> set l) \<and>
      config_json fs' =
        Some (JObj (AList.update ''customConfig'' (JArr sorted_config) (main_config self2))) \<and>
      (list_all (absent (custom_config self2)) (tl names) \<longrightarrow>
         sorted_config = custom_config self2)"
proof -
  define cfg where "cfg = custom_config self2"
  define ps where "ps = zip names (tl names)"
  have hg: "list_all has_group_field cfg"
    using pl plain_record_has_group unfolding cfg_def by (auto simp: list_all_iff)
  from sort_pairs_total[OF hg, of ps "{}"]
  obtain out m' ls where sp: "sort_pairs ps cfg {} = (Inr (out, m'), ls)"
    and sub: "set out \<subseteq> set cfg" by blast
  define l3 where
    "l3 = ls @ [Info_sorted_groups [g \<leftarrow> names. g \<in> set names - m']]"
  have gs: "get_sorted_custom_config cfg names = (Inr out, l3)"
    using sp by (simp add: get_sorted_custom_config_def ps_def l3_def)
  define self3 where "self3 = self2\<lparr>ordering_data := names, custom_config := out\<rparr>"
  have ne: "names \<noteq> []" "\<not> length names < 2" using len by auto
  have sc: "sort_custom_config self2 fs = (Inr self3, l3)"
    using od ne gs by (simp add: sort_custom_config_def Let_def cfg_def self3_def)
  have po: "list_all plain_record (custom_config self3)"
    using pl sub unfolding cfg_def self3_def by (auto simp: list_all_iff)
  from gd obtain bg where bg: "groups_directory fs = Some bg" by auto
  from recreate_without_fault[OF po od bg]
  obtain fs1 l4 where rc: "recreate_custom_config_files No_fault self3 fs = (Inr (), fs1, l4)"
    by blast
  define fs' where
    "fs' = fs1\<lparr>config_json := Some (get_joined_main_and_custom_config self3)\<rparr>"
  have r: "run No_fault fs = (Inr (), fs', l1 @ l2 @ l3 @ l4 @ [Info_wrote_merged])"
    by (simp add: run_def lm lc sc rc replace_config_in_root_def fs'_def)
  have cj: "config_json fs' =
      Some (JObj (AList.update ''customConfig'' (JArr out) (main_config self2)))"
    by (simp add: fs'_def get_joined_main_and_custom_config_def self3_def)
  have w: "\<exists>w. absent cfg w \<and> Warning_group_not_found w \<in> set ls"
  proof -
    from ab obtain z where z: "z \<in> set names" "absent cfg z"
      by (auto simp: list_ex_iff cfg_def)
    from len obtain n0 n1 rest where n: "names = n0 # n1 # rest"
      by (cases names; cases "tl names") auto
    show ?thesis
    proof (cases "z \<in> set (tl names)")
      case True
      from second_of_some_pair[OF this] obtain a where "(a, z) \<in> set ps"
        unfolding ps_def by blast
      from sort_pairs_warns_second[OF hg z(2) this, of "{}"]
      show ?thesis using z(2) sp by auto
    next
      case False
      then have "z = n0" using z(1) n by auto
      then have "absent cfg n0" using z(2) by simp
      from sort_pairs_warns_first[OF hg this, of n1 "zip (n1 # rest) rest" "{}"]
      show ?thesis using sp unfolding ps_def n by auto
    qed
  qed
  have same: "list_all (absent cfg) (tl names) \<longrightarrow> out = cfg"
  proof
    assume "list_all (absent cfg) (tl names)"
    then have "\<forall>p\<in>set ps. absent cfg (snd p)"
      unfolding ps_def by (auto simp: list_all_iff dest: set_zip_rightD)
    from sort_pairs_all_skipped[OF hg this, of "{}"]
    show "out = cfg" using sp by simp
  qed
  from w have "\<exists>w. absent cfg w \<and>
      Warning_group_not_found w \<in> set (l1 @ l2 @ l3 @ l4 @ [Info_wrote_merged])"
    unfolding l3_def by auto
  with r cj same show ?thesis unfolding cfg_def by blast
qed

lemma run_ordered_x_z:
  "run No_fault (fs_ordered [''x'', ''z'']) =
    (Inr (),
     \<lparr>main_json = Some (JObj [(''a'', JInt 1)]),
      groups_directory = Some [(''x.json'', JArr [x1]), (''y.json'', JArr [y1])],
      order_json = Some [''x'', ''y''],
      config_json = Some (JObj [(''a'', JInt 1), (''customConfig'', JArr [x1, y1])])\<rparr>,
     [Info_loaded_main, Info_loaded_custom ''fragments.json'',
      Warning_group_not_found ''z'', Info_sorted_groups [''x''],
      Info_removed_groups {''z''}, Info_new_groups {''y''}, Info_recreated,
      Info_wrote_merged])"
  by (simp add: run_defs fs_ordered_def x1_def y1_def)

theorem run_with_absent_group_witness:
  "run No_fault (fs_ordered [''x'', ''z'']) =
    (Inr (),
     \<lparr>main_json = Some (JObj [(''a'', JInt 1)]),
      groups_directory = Some [(''x.json'', JArr [x1]), (''y.json'', JArr [y1])],
      order_json = Some [''x'', ''y''],
      config_json = Some (JObj [(''a'', JInt 1), (''customConfig'', JArr [x1, y1])])\<rparr>,
     [Info_loaded_main, Info_loaded_custom ''fragments.json'',
      Warning_group_not_found ''z'', Info_sorted_groups [''x''],
      Info_removed_groups {''z''}, Info_new_groups {''y''}, Info_recreated,
      Info_wrote_merged]) \<and>
   (\<exists>fs' l sorted_config.
      run No_fault (fs_ordered [''x'', ''z'']) = (Inr (), fs', l) \<and>
      (\<exists>w. absent [x1, y1] w \<and> Warning_group_not_found w \<in> set l) \<and>
      config_json fs' =
        Some (JObj (AList.update ''customConfig'' (JArr sorted_config) [(''a'', JInt 1)])) \<and>
      sorted_config = [x1, y1])"
proof -
  define s1 where "s1 = new_JsonCompiler\<lparr>main_config := [(''a'', JInt 1)]\<rparr>"
  define s2 where "s2 = s1\<lparr>custom_config := [x1, y1]\<rparr>"
  have lm: "load_main_config new_JsonCompiler (fs_ordered [''x'', ''z'']) =
      (Inr s1, [Info_loaded_main])"
    by (simp add: load_main_config_def fs_ordered_def s1_def)
  have lc: "load_custom_config s1 (fs_ordered [''x'', ''z'']) =
      (Inr s2, [Info_loaded_custom ''fragments.json''])"
    by (simp add: load_custom_config_def fs_ordered_def s1_def s2_def is_json_name_def
        new_JsonCompiler_def prepend_def)
  have c: "custom_config s2 = [x1, y1]" "main_config s2 = [(''a'', JInt 1)]"
    by (simp_all add: s2_def s1_def)
  have gd: "groups_directory (fs_ordered [''x'', ''z'']) \<noteq> None"
    and od: "order_json (fs_ordered [''x'', ''z'']) = Some [''x'', ''z'']"
    by (simp_all add: fs_ordered_def)
  have pl: "list_all plain_record (custom_config s2)"
    by (simp add: c plain_record_def plain_stem_def x1_def y1_def)
  have len: "2 \<le> length [''x'', ''z'']" by simp
  have ab: "list_ex (absent (custom_config s2)) [''x'', ''z'']"
    by (simp add: c absent_def in_group_def x1_def y1_def)
  have all: "list_all (absent (custom_config s2)) (tl [''x'', ''z''])"
    by (simp add: c absent_def in_group_def x1_def y1_def)
  from run_with_absent_group[OF lm lc gd pl od len ab] all
  have "\<exists>fs' l sorted_config.
      run No_fault (fs_ordered [''x'', ''z'']) = (Inr (), fs', l) \<and>
      (\<exists>w. absent [x1, y1] w \<and> Warning_group_not_found w \<in> set l) \<and>
      config_json fs' =
        Some (JObj (AList.update ''customConfig'' (JArr sorted_config) [(''a'', JInt 1)])) \<and>
      sorted_config = [x1, y1]"
    unfolding c by blast
  then show ?thesis using run_ordered_x_z by blast
qed

text \<open>
  Claim C4 as stated fails. With fragments x, y and the specification \<^verbatim>\<open>["z","x"]\<close> the run
  succeeds, but the record of x is extracted and, z being absent, never put back: the
  output holds only the record of y. With the specification \<^verbatim>\<open>["y","x","z"]\<close> the pair
  (y, x) moves x behind y, so the output order differs from the input order.
\<close>

theorem absent_group_loses_or_reorders_records:
  "fst (run No_fault (fs_ordered [''z'', ''x''])) = Inr () \<and>
   config_json (fst (snd (run No_fault (fs_ordered [''z'', ''x''])))) =
     Some (JObj [(''a'', JInt 1), (''customConfig'', JArr [y1])]) \<and>
   fst (run No_fault (fs_ordered [''y'', ''x'', ''z''])) = Inr () \<and>
   config_json (fst (snd (run No_fault (fs_ordered [''y'', ''x'', ''z''])))) =
     Some (JObj [(''a'', JInt 1), (''customConfig'', JArr [y1, x1])]) \<and>
   load_custom_config new_JsonCompiler (fs_ordered [''z'', ''x'']) =
     (Inr (new_JsonCompiler\<lparr>custom_config := [x1, y1]\<rparr>),
      [Info_loaded_custom ''fragments.json'']) \<and>
   [y1] \<noteq> [x1, y1] \<and> [y1, x1] \<noteq> [x1, y1]"
  by (simp add: run_defs fs_ordered_def x1_def y1_def)

section \<open>The caller's objects\<close>

lemma lookup_append: "a < length h \<Longrightarrow> lookup (h @ ext) a = lookup h a"
  by (simp add: lookup_def nth_append)

lemma lookup_new: "lookup (h @ [obj]) (length h) = Some obj"
  by (simp add: lookup_def)

lemma is_record_bound: "is_record h r \<Longrightarrow> r < length h"
  by (auto simp: is_record_def lookup_def split: if_splits)

lemma is_record_append: "is_record h r \<Longrightarrow> is_record (h @ ext) r"
  using is_record_bound[of h r] by (simp add: is_record_def lookup_append)

lemma record_value_append: "r < length h \<Longrightarrow> record_value (h @ ext) r = record_value h r"
  by (simp add: record_value_def lookup_append)

lemma elems_append: "a < length h \<Longrightarrow> elems (h @ ext) a = elems h a"
  by (simp add: elems_def lookup_append)

lemma elems_new: "elems (h @ [PyList rs]) (length h) = rs"
  by (simp add: elems_def lookup_new)

lemma list_of_records_iff:
  "list_of_records h a \<longleftrightarrow>
     (\<exists>rs. lookup h a = Some (PyList rs) \<and> (\<forall>r\<in>set rs. is_record h r))"
  by (auto simp: list_of_records_def is_record_def list_all_iff split: option.splits pyobj.splits)

lemma list_of_records_elems:
  assumes "list_of_records h a"
  shows "a < length h" "\<forall>r\<in>set (elems h a). is_record h r"
  using assms
  by (auto simp: list_of_records_iff elems_def lookup_def split: if_splits)

lemma list_of_records_append:
  assumes "list_of_records h a"
  shows "list_of_records (h @ ext) a" "elems (h @ ext) a = elems h a"
    "denote (h @ ext) a = denote h a"
proof -
  note b = list_of_records_elems[OF assms]
  show e: "elems (h @ ext) a = elems h a" using b(1) by (rule elems_append)
  from assms obtain rs where rs: "lookup h a = Some (PyList rs)" "\<forall>r\<in>set rs. is_record h r"
    unfolding list_of_records_iff by blast
  show "list_of_records (h @ ext) a"
    unfolding list_of_records_iff using rs b(1) is_record_append
    by (auto simp: lookup_append)
  show "denote (h @ ext) a = denote h a"
    unfolding denote_def e using b(2) is_record_bound
    by (auto simp: record_value_append)
qed

lemma new_list_of_records:
  assumes "\<forall>r\<in>set rs. is_record h r"
  shows "list_of_records (h @ [PyList rs]) (length h)"
    "elems (h @ [PyList rs]) (length h) = rs"
    "denote (h @ [PyList rs]) (length h) = map (record_value h) rs"
proof -
  show "list_of_records (h @ [PyList rs]) (length h)"
    unfolding list_of_records_iff using assms is_record_append by (auto simp: lookup_new)
  show "elems (h @ [PyList rs]) (length h) = rs" by (rule elems_new)
  show "denote (h @ [PyList rs]) (length h) = map (record_value h) rs"
    unfolding denote_def elems_new using assms is_record_bound
    by (auto simp: record_value_append)
qed

text \<open>What a slice and a concatenation build.\<close>

lemma py_slice_result:
  assumes "list_of_records h a"
  shows "py_slice h a i j = (length h, h @ [PyList (slice i j (elems h a))])"
    "list_of_records (h @ [PyList (slice i j (elems h a))]) (length h)"
    "denote (h @ [PyList (slice i j (elems h a))]) (length h) = slice i j (denote h a)"
proof -
  show "py_slice h a i j = (length h, h @ [PyList (slice i j (elems h a))])"
    by (simp add: py_slice_def alloc_def)
  have r: "\<forall>r\<in>set (slice i j (elems h a)). is_record h r"
    using list_of_records_elems(2)[OF assms]
    by (auto simp: slice_def dest!: in_set_takeD in_set_dropD)
  show "list_of_records (h @ [PyList (slice i j (elems h a))]) (length h)"
    by (rule new_list_of_records(1)[OF r])
  show "denote (h @ [PyList (slice i j (elems h a))]) (length h) = slice i j (denote h a)"
    unfolding new_list_of_records(3)[OF r] by (simp add: denote_def slice_def take_map drop_map)
qed

lemma py_concat_result:
  assumes "list_of_records h a" "list_of_records h b"
  shows "py_concat h a b = (length h, h @ [PyList (elems h a @ elems h b)])"
    "list_of_records (h @ [PyList (elems h a @ elems h b)]) (length h)"
    "denote (h @ [PyList (elems h a @ elems h b)]) (length h) = denote h a @ denote h b"
proof -
  show "py_concat h a b = (length h, h @ [PyList (elems h a @ elems h b)])"
    by (simp add: py_concat_def alloc_def)
  have r: "\<forall>r\<in>set (elems h a @ elems h b). is_record h r"
    using list_of_records_elems(2)[OF assms(1)] list_of_records_elems(2)[OF assms(2)] by auto
  show "list_of_records (h @ [PyList (elems h a @ elems h b)]) (length h)"
    by (rule new_list_of_records(1)[OF r])
  show "denote (h @ [PyList (elems h a @ elems h b)]) (length h) = denote h a @ denote h b"
    unfolding new_list_of_records(3)[OF r] by (simp add: denote_def)
qed

lemma slice_from_0: "slice 0 j xs = take j xs"
  by (simp add: slice_def)

lemma slice_to_end: "length xs \<le> n \<Longrightarrow> slice i n xs = drop i xs"
  by (simp add: slice_def)

lemma set_slice: "set (slice i j xs) \<subseteq> set xs"
  by (auto simp: slice_def dest!: in_set_takeD in_set_dropD)

lemma pop_group_2_heap_refines:
  assumes lr: "list_of_records h cc"
  shows "\<exists>res l ext. pop_group_2_heap h cc g = ((res, l), h @ ext) \<and>
     (case res of
        Inl e \<Rightarrow> ext = [] \<and> pop_group_2 (denote h cc) g = (Inl e, l)
      | Inr p \<Rightarrow>
          list_of_records (h @ ext) (fst p) \<and> list_of_records (h @ ext) (snd p) \<and>
          pop_group_2 (denote h cc) g =
            (Inr (denote (h @ ext) (fst p), denote (h @ ext) (snd p)), l) \<and>
          set (elems (h @ ext) (fst p)) \<subseteq> set (elems h cc) \<and>
          set (elems (h @ ext) (snd p)) \<subseteq> set (elems h cc) \<and> cc \<le> snd p)"
proof -
  obtain r l where c: "collect_group_ordering_data_item (denote h cc) g = (r, l)"
    by (cases "collect_group_ordering_data_item (denote h cc) g") auto
  show ?thesis
  proof (cases r)
    case (Inl e)
    then show ?thesis
      using c by (intro exI[of _ "Inl e"] exI[of _ l] exI[of _ "[]"])
        (simp add: pop_group_2_heap_def pop_group_2_def)
  next
    case (Inr item)
    show ?thesis
    proof (cases "\<exists>f la. first_item_index item = Some f \<and> last_item_index item = Some la")
      case False
      then have "pop_group_2_heap h cc g = ((Inl TypeError, l), h)"
        "pop_group_2 (denote h cc) g = (Inl TypeError, l)"
        using c Inr
        by (auto simp: pop_group_2_heap_def pop_group_2_def split: option.splits)
      then show ?thesis
        by (intro exI[of _ "Inl TypeError"] exI[of _ l] exI[of _ "[]"]) simp
    next
      case True
      then obtain f la where fl: "first_item_index item = Some f" "last_item_index item = Some la"
        by blast
      define rs where "rs = elems h cc"
      define xs where "xs = denote h cc"
      have len: "length xs = length rs" by (simp add: xs_def rs_def denote_def)
      define L1 where "L1 = PyList (slice 0 f rs)"
      define L2 where "L2 = PyList (slice f (la + 1) rs)"
      define L3 where "L3 = PyList (slice (la + 1) (length rs) rs)"
      define h1 where "h1 = h @ [L1]"
      define h2 where "h2 = h1 @ [L2]"
      define h3 where "h3 = h2 @ [L3]"
      define L4 where "L4 = PyList (elems h3 (length h) @ elems h3 (length h2))"
      define h4 where "h4 = h3 @ [L4]"
      have s1: "py_slice h cc 0 f = (length h, h1)" "list_of_records h1 (length h)"
        "denote h1 (length h) = slice 0 f xs"
        using py_slice_result[OF lr, of 0 f] by (simp_all add: h1_def L1_def rs_def xs_def)
      have lr1: "list_of_records h1 cc" "elems h1 cc = rs" "denote h1 cc = xs"
        using list_of_records_append[OF lr, of "[L1]"] by (simp_all add: h1_def rs_def xs_def)
      have s2: "py_slice h1 cc f (la + 1) = (length h1, h2)" "list_of_records h2 (length h1)"
        "denote h2 (length h1) = slice f (la + 1) xs"
        using py_slice_result[OF lr1(1), of f "la + 1"] lr1(2,3) by (simp_all add: h2_def L2_def)
      have lr2: "list_of_records h2 cc" "elems h2 cc = rs" "denote h2 cc = xs"
        using list_of_records_append[OF lr1(1), of "[L2]"] lr1(2,3) by (simp_all add: h2_def)
      have s3: "py_slice h2 cc (la + 1) (length rs) = (length h2, h3)"
        "list_of_records h3 (length h2)"
        "denote h3 (length h2) = slice (la + 1) (length rs) xs"
        using py_slice_result[OF lr2(1), of "la + 1" "length rs"] lr2(2,3)
        by (simp_all add: h3_def L3_def)
      have b3: "list_of_records h3 (length h)" "denote h3 (length h) = slice 0 f xs"
        "elems h3 (length h) = slice 0 f rs"
      proof -
        have a: "list_of_records h2 (length h)" "denote h2 (length h) = slice 0 f xs"
          "elems h2 (length h) = elems h1 (length h)"
          using list_of_records_append[OF s1(2), of "[L2]"] s1(3) by (simp_all add: h2_def)
        have e1: "elems h1 (length h) = slice 0 f rs" by (simp add: h1_def L1_def elems_new)
        show "list_of_records h3 (length h)" "denote h3 (length h) = slice 0 f xs"
          "elems h3 (length h) = slice 0 f rs"
          using list_of_records_append[OF a(1), of "[L3]"] a(2,3) e1 by (simp_all add: h3_def)
      qed
      have e3: "elems h3 (length h2) = slice (la + 1) (length rs) rs"
        by (simp add: h3_def L3_def elems_new)
      have s4: "py_concat h3 (length h) (length h2) = (length h3, h4)"
        "list_of_records h4 (length h3)"
        "denote h4 (length h3) = slice 0 f xs @ slice (la + 1) (length rs) xs"
        using py_concat_result[OF b3(1) s3(2)] b3(2) s3(3) by (simp_all add: h4_def L4_def)
      have g4: "list_of_records h4 (length h1)" "denote h4 (length h1) = slice f (la + 1) xs"
        "elems h4 (length h1) = slice f (la + 1) rs"
      proof -
        have a: "list_of_records h3 (length h1)" "denote h3 (length h1) = slice f (la + 1) xs"
          "elems h3 (length h1) = elems h2 (length h1)"
          using list_of_records_append[OF s2(2), of "[L3]"] s2(3) by (simp_all add: h3_def)
        have e2: "elems h2 (length h1) = slice f (la + 1) rs" by (simp add: h2_def L2_def elems_new)
        show "list_of_records h4 (length h1)" "denote h4 (length h1) = slice f (la + 1) xs"
          "elems h4 (length h1) = slice f (la + 1) rs"
          using list_of_records_append[OF a(1), of "[L4]"] a(2,3) e2 by (simp_all add: h4_def)
      qed
      have e4: "elems h4 (length h3) = slice 0 f rs @ slice (la + 1) (length rs) rs"
        unfolding h4_def elems_new L4_def b3(3) e3 ..
      have heap: "pop_group_2_heap h cc g = ((Inr (length h1, length h3), l), h4)"
        using c Inr fl s1(1) s2(1) s3(1) s4(1) lr2(2)
        by (simp add: pop_group_2_heap_def xs_def[symmetric])
      have pure: "pop_group_2 xs g =
          (Inr (slice f (la + 1) xs, slice 0 f xs @ slice (la + 1) (length rs) xs), l)"
        using c Inr fl len by (simp add: pop_group_2_def xs_def[symmetric] slice_from_0 slice_to_end)
      have ext: "h4 = h @ [L1, L2, L3, L4]" by (simp add: h4_def h3_def h2_def h1_def)
      have sub: "set (elems h4 (length h1)) \<subseteq> set rs" "set (elems h4 (length h3)) \<subseteq> set rs"
        unfolding g4(3) e4 using set_slice[of _ _ rs] by auto
      have bound: "cc \<le> length h3"
        using list_of_records_elems(1)[OF lr] by (simp add: h3_def h2_def h1_def)
      show ?thesis
        using heap pure s4(2,3) g4(1,2) sub bound unfolding ext xs_def rs_def
        by (intro exI[of _ "Inr (length h1, length h3)"] exI[of _ l] exI[of _ "[L1, L2, L3, L4]"])
          simp
    qed
  qed
qed

lemma insert_group_2_after_group_1_heap_refines:
  assumes lr: "list_of_records h cc" and lg: "list_of_records h g2"
  shows "\<exists>res l ext. insert_group_2_after_group_1_heap h cc g g2 = ((res, l), h @ ext) \<and>
     (case res of
        Inl e \<Rightarrow> ext = [] \<and>
          insert_group_2_after_group_1 (denote h cc) g (denote h g2) = (Inl e, l)
      | Inr cc' \<Rightarrow>
          list_of_records (h @ ext) cc' \<and>
          insert_group_2_after_group_1 (denote h cc) g (denote h g2) =
            (Inr (denote (h @ ext) cc'), l) \<and>
          set (elems (h @ ext) cc') \<subseteq> set (elems h cc) \<union> set (elems h g2) \<and>
          cc \<le> cc')"
proof -
  obtain r l where c: "collect_group_ordering_data_item (denote h cc) g = (r, l)"
    by (cases "collect_group_ordering_data_item (denote h cc) g") auto
  show ?thesis
  proof (cases r)
    case (Inl e)
    then show ?thesis
      using c by (intro exI[of _ "Inl e"] exI[of _ l] exI[of _ "[]"])
        (simp add: insert_group_2_after_group_1_heap_def insert_group_2_after_group_1_def)
  next
    case (Inr item)
    show ?thesis
    proof (cases "last_item_index item")
      case None
      then have "insert_group_2_after_group_1_heap h cc g g2 = ((Inl TypeError, l), h)"
        "insert_group_2_after_group_1 (denote h cc) g (denote h g2) = (Inl TypeError, l)"
        using c Inr
        by (auto simp: insert_group_2_after_group_1_heap_def insert_group_2_after_group_1_def)
      then show ?thesis
        by (intro exI[of _ "Inl TypeError"] exI[of _ l] exI[of _ "[]"]) simp
    next
      case (Some la)
      define rs where "rs = elems h cc"
      define xs where "xs = denote h cc"
      define gs where "gs = elems h g2"
      define N where "N = denote h g2"
      have len: "length xs = length rs" by (simp add: xs_def rs_def denote_def)
      define L1 where "L1 = PyList (slice 0 (la + 1) rs)"
      define L2 where "L2 = PyList (slice (la + 1) (length rs) rs)"
      define h1 where "h1 = h @ [L1]"
      define h2 where "h2 = h1 @ [L2]"
      define L3 where "L3 = PyList (elems h2 (length h) @ elems h2 g2)"
      define h3 where "h3 = h2 @ [L3]"
      define L4 where "L4 = PyList (elems h3 (length h2) @ elems h3 (length h1))"
      define h4 where "h4 = h3 @ [L4]"
      have s1: "py_slice h cc 0 (la + 1) = (length h, h1)" "list_of_records h1 (length h)"
        "denote h1 (length h) = slice 0 (la + 1) xs"
        using py_slice_result[OF lr, of 0 "la + 1"]
        by (simp_all add: h1_def L1_def rs_def xs_def)
      have e1: "elems h1 (length h) = slice 0 (la + 1) rs" by (simp add: h1_def L1_def elems_new)
      have lr1: "list_of_records h1 cc" "elems h1 cc = rs" "denote h1 cc = xs"
        using list_of_records_append[OF lr, of "[L1]"] by (simp_all add: h1_def rs_def xs_def)
      have s2: "py_slice h1 cc (la + 1) (length rs) = (length h1, h2)"
        "list_of_records h2 (length h1)"
        "denote h2 (length h1) = slice (la + 1) (length rs) xs"
        using py_slice_result[OF lr1(1), of "la + 1" "length rs"] lr1(2,3)
        by (simp_all add: h2_def L2_def)
      have e2: "elems h2 (length h1) = slice (la + 1) (length rs) rs"
        by (simp add: h2_def L2_def elems_new)
      have b2: "list_of_records h2 (length h)" "denote h2 (length h) = slice 0 (la + 1) xs"
        "elems h2 (length h) = slice 0 (la + 1) rs"
        using list_of_records_append[OF s1(2), of "[L2]"] s1(3) e1 by (simp_all add: h2_def)
      have g2': "list_of_records h2 g2" "denote h2 g2 = N" "elems h2 g2 = gs"
        using list_of_records_append[OF lg, of "[L1, L2]"]
        by (simp_all add: h2_def h1_def N_def gs_def)
      have s3: "py_concat h2 (length h) g2 = (length h2, h3)" "list_of_records h3 (length h2)"
        "denote h3 (length h2) = slice 0 (la + 1) xs @ N"
        using py_concat_result[OF b2(1) g2'(1)] b2(2) g2'(2) by (simp_all add: h3_def L3_def)
      have e3: "elems h3 (length h2) = slice 0 (la + 1) rs @ gs"
        unfolding h3_def elems_new L3_def b2(3) g2'(3) ..
      have a3: "list_of_records h3 (length h1)"
        "denote h3 (length h1) = slice (la + 1) (length rs) xs"
        "elems h3 (length h1) = slice (la + 1) (length rs) rs"
        using list_of_records_append[OF s2(2), of "[L3]"] s2(3) e2 by (simp_all add: h3_def)
      have s4: "py_concat h3 (length h2) (length h1) = (length h3, h4)"
        "list_of_records h4 (length h3)"
        "denote h4 (length h3) = (slice 0 (la + 1) xs @ N) @ slice (la + 1) (length rs) xs"
        using py_concat_result[OF s3(2) a3(1)] s3(3) a3(2) by (simp_all add: h4_def L4_def)
      have e4: "elems h4 (length h3) =
          (slice 0 (la + 1) rs @ gs) @ slice (la + 1) (length rs) rs"
        unfolding h4_def elems_new L4_def e3 a3(3) ..
      have heap: "insert_group_2_after_group_1_heap h cc g g2 = ((Inr (length h3), l), h4)"
        using c Inr Some s1(1) s2(1) s3(1) s4(1) lr1(2)
        by (simp add: insert_group_2_after_group_1_heap_def xs_def[symmetric])
      have pure: "insert_group_2_after_group_1 xs g N =
          (Inr ((slice 0 (la + 1) xs @ N) @ slice (la + 1) (length rs) xs), l)"
        using c Inr Some len
        by (simp add: insert_group_2_after_group_1_def xs_def[symmetric] slice_from_0 slice_to_end)
      have ext: "h4 = h @ [L1, L2, L3, L4]" by (simp add: h4_def h3_def h2_def h1_def)
      have sub: "set (elems h4 (length h3)) \<subseteq> set rs \<union> set gs"
        unfolding e4 using set_slice[of _ _ rs] by auto
      have bound: "cc \<le> length h3"
        using list_of_records_elems(1)[OF lr] by (simp add: h3_def h2_def h1_def)
      show ?thesis
        using heap pure s4(2,3) sub bound unfolding ext xs_def rs_def N_def gs_def
        by (intro exI[of _ "Inr (length h3)"] exI[of _ l] exI[of _ "[L1, L2, L3, L4]"]) simp
    qed
  qed
qed

lemma sort_pairs_heap_refines:
  assumes "list_of_records h cc"
  shows "\<exists>res l ext. sort_pairs_heap ps h cc m = ((res, l), h @ ext) \<and>
     (case res of
        Inl e \<Rightarrow> sort_pairs ps (denote h cc) m = (Inl e, l)
      | Inr p \<Rightarrow>
          list_of_records (h @ ext) (fst p) \<and>
          sort_pairs ps (denote h cc) m = (Inr (denote (h @ ext) (fst p), snd p), l) \<and>
          set (elems (h @ ext) (fst p)) \<subseteq> set (elems h cc) \<and> cc \<le> fst p)"
  using assms
proof (induction ps arbitrary: h cc m)
  case Nil
  then show ?case
    by (intro exI[of _ "Inr (cc, m)"] exI[of _ "[]"] exI[of _ "[]"]) simp
next
  case (Cons pr ps)
  obtain g1 g2 where pr: "pr = (g1, g2)" by (cases pr) auto
  from pop_group_2_heap_refines[OF Cons.prems, of g2]
  obtain res l ext where p: "pop_group_2_heap h cc g2 = ((res, l), h @ ext)"
    and pc: "case res of
        Inl e \<Rightarrow> ext = [] \<and> pop_group_2 (denote h cc) g2 = (Inl e, l)
      | Inr p \<Rightarrow>
          list_of_records (h @ ext) (fst p) \<and> list_of_records (h @ ext) (snd p) \<and>
          pop_group_2 (denote h cc) g2 =
            (Inr (denote (h @ ext) (fst p), denote (h @ ext) (snd p)), l) \<and>
          set (elems (h @ ext) (fst p)) \<subseteq> set (elems h cc) \<and>
          set (elems (h @ ext) (snd p)) \<subseteq> set (elems h cc) \<and> cc \<le> snd p"
    by blast
  show ?case
  proof (cases res)
    case (Inl e)
    then have pe: "ext = []" "pop_group_2 (denote h cc) g2 = (Inl e, l)" using pc by simp_all
    show ?thesis
    proof (cases "\<exists>g. e = SortingGroupDoesNotExist g")
      case True
      then obtain g where e: "e = SortingGroupDoesNotExist g" by blast
      from Cons.IH[OF Cons.prems, of "insert g m"]
      obtain res' l' ext' where r: "sort_pairs_heap ps h cc (insert g m) = ((res', l'), h @ ext')"
        and rc: "case res' of
          Inl e \<Rightarrow> sort_pairs ps (denote h cc) (insert g m) = (Inl e, l')
        | Inr p \<Rightarrow>
            list_of_records (h @ ext') (fst p) \<and>
            sort_pairs ps (denote h cc) (insert g m) =
              (Inr (denote (h @ ext') (fst p), snd p), l') \<and>
            set (elems (h @ ext') (fst p)) \<subseteq> set (elems h cc) \<and> cc \<le> fst p"
        by blast
      have "sort_pairs_heap (pr # ps) h cc m = ((res', l @ l'), h @ ext')"
        using p Inl e pe(1) r by (simp add: pr prepend_def)
      moreover have "sort_pairs (pr # ps) (denote h cc) m =
          prepend l (sort_pairs ps (denote h cc) (insert g m))"
        using pe(2) e by (simp add: pr)
      ultimately show ?thesis
        using rc by (intro exI[of _ res'] exI[of _ "l @ l'"] exI[of _ ext'])
          (auto simp: prepend_def split: sum.splits)
    next
      case False
      then have "sort_pairs_heap (pr # ps) h cc m = ((Inl e, l), h @ [])"
        "sort_pairs (pr # ps) (denote h cc) m = (Inl e, l)"
        using p Inl pe by (cases e; simp add: pr)+
      then show ?thesis
        by (intro exI[of _ "Inl e"] exI[of _ l] exI[of _ "[]"]) simp
    qed
  next
    case (Inr gp)
    obtain g2a cc1 where gp: "gp = (g2a, cc1)" by (cases gp) auto
    define h1 where "h1 = h @ ext"
    have q: "list_of_records h1 g2a" "list_of_records h1 cc1"
      "pop_group_2 (denote h cc) g2 = (Inr (denote h1 g2a, denote h1 cc1), l)"
      "set (elems h1 g2a) \<subseteq> set (elems h cc)" "set (elems h1 cc1) \<subseteq> set (elems h cc)"
      "cc \<le> cc1"
      using pc Inr gp by (simp_all add: h1_def)
    from insert_group_2_after_group_1_heap_refines[OF q(2) q(1), of g1]
    obtain ires il iext where
      i: "insert_group_2_after_group_1_heap h1 cc1 g1 g2a = ((ires, il), h1 @ iext)"
      and ic: "case ires of
        Inl e \<Rightarrow> iext = [] \<and>
          insert_group_2_after_group_1 (denote h1 cc1) g1 (denote h1 g2a) = (Inl e, il)
      | Inr cc' \<Rightarrow>
          list_of_records (h1 @ iext) cc' \<and>
          insert_group_2_after_group_1 (denote h1 cc1) g1 (denote h1 g2a) =
            (Inr (denote (h1 @ iext) cc'), il) \<and>
          set (elems (h1 @ iext) cc') \<subseteq> set (elems h1 cc1) \<union> set (elems h1 g2a) \<and>
          cc1 \<le> cc'"
      by blast
    show ?thesis
    proof (cases ires)
      case (Inl e)
      then have ie: "iext = []"
        "insert_group_2_after_group_1 (denote h1 cc1) g1 (denote h1 g2a) = (Inl e, il)"
        using ic by simp_all
      show ?thesis
      proof (cases "\<exists>g. e = SortingGroupDoesNotExist g")
        case True
        then obtain g where e: "e = SortingGroupDoesNotExist g" by blast
        from Cons.IH[OF q(2), of "insert g m"]
        obtain res' l' ext' where
          r: "sort_pairs_heap ps h1 cc1 (insert g m) = ((res', l'), h1 @ ext')"
          and rc: "case res' of
            Inl e \<Rightarrow> sort_pairs ps (denote h1 cc1) (insert g m) = (Inl e, l')
          | Inr p \<Rightarrow>
              list_of_records (h1 @ ext') (fst p) \<and>
              sort_pairs ps (denote h1 cc1) (insert g m) =
                (Inr (denote (h1 @ ext') (fst p), snd p), l') \<and>
              set (elems (h1 @ ext') (fst p)) \<subseteq> set (elems h1 cc1) \<and> cc1 \<le> fst p"
          by blast
        have "sort_pairs_heap (pr # ps) h cc m = ((res', (l @ il) @ l'), h @ (ext @ ext'))"
          using p Inr gp i Inl e ie(1) r by (simp add: pr prepend_def h1_def)
        moreover have "sort_pairs (pr # ps) (denote h cc) m =
            prepend (l @ il) (sort_pairs ps (denote h1 cc1) (insert g m))"
          using q(3) ie(2) e by (simp add: pr)
        ultimately show ?thesis
          using rc q(5,6)
          by (intro exI[of _ res'] exI[of _ "(l @ il) @ l'"] exI[of _ "ext @ ext'"])
            (auto simp: prepend_def h1_def split: sum.splits)
      next
        case False
        then have "sort_pairs_heap (pr # ps) h cc m = ((Inl e, l @ il), h @ ext)"
          "sort_pairs (pr # ps) (denote h cc) m = (Inl e, l @ il)"
          using p Inr gp i Inl ie q(3) by (cases e; simp add: pr h1_def)+
        then show ?thesis
          by (intro exI[of _ "Inl e"] exI[of _ "l @ il"] exI[of _ ext]) simp
      qed
    next
      case inr: (Inr cc2)
      define h2 where "h2 = h1 @ iext"
      have j: "list_of_records h2 cc2"
        "insert_group_2_after_group_1 (denote h1 cc1) g1 (denote h1 g2a) =
            (Inr (denote h2 cc2), il)"
        "set (elems h2 cc2) \<subseteq> set (elems h1 cc1) \<union> set (elems h1 g2a)"
        "cc1 \<le> cc2"
        using ic inr by (simp_all add: h2_def)
      from Cons.IH[OF j(1), of m]
      obtain res' l' ext' where
        r: "sort_pairs_heap ps h2 cc2 m = ((res', l'), h2 @ ext')"
        and rc: "case res' of
          Inl e \<Rightarrow> sort_pairs ps (denote h2 cc2) m = (Inl e, l')
        | Inr p \<Rightarrow>
            list_of_records (h2 @ ext') (fst p) \<and>
            sort_pairs ps (denote h2 cc2) m =
              (Inr (denote (h2 @ ext') (fst p), snd p), l') \<and>
            set (elems (h2 @ ext') (fst p)) \<subseteq> set (elems h2 cc2) \<and> cc2 \<le> fst p"
        by blast
      have "sort_pairs_heap (pr # ps) h cc m =
          ((res', (l @ il) @ l'), h @ (ext @ iext @ ext'))"
        using p Inr gp i inr r by (simp add: pr prepend_def h1_def h2_def)
      moreover have "sort_pairs (pr # ps) (denote h cc) m =
          prepend (l @ il) (sort_pairs ps (denote h2 cc2) m)"
        using q(3) j(2) by (simp add: pr)
      moreover have sub2: "set (elems h2 cc2) \<subseteq> set (elems h cc)"
        using q(4,5) j(3) by blast
      ultimately show ?thesis
      proof (cases res')
        case (Inl e)
        then show ?thesis
          using rc \<open>sort_pairs_heap (pr # ps) h cc m =
              ((res', (l @ il) @ l'), h @ (ext @ iext @ ext'))\<close>
            \<open>sort_pairs (pr # ps) (denote h cc) m =
              prepend (l @ il) (sort_pairs ps (denote h2 cc2) m)\<close>
          by (intro exI[of _ res'] exI[of _ "(l @ il) @ l'"] exI[of _ "ext @ iext @ ext'"])
            (simp add: prepend_def)
      next
        case (Inr p')
        then have k: "list_of_records (h2 @ ext') (fst p')"
          "sort_pairs ps (denote h2 cc2) m = (Inr (denote (h2 @ ext') (fst p'), snd p'), l')"
          "set (elems (h2 @ ext') (fst p')) \<subseteq> set (elems h2 cc2)"
          "cc2 \<le> fst p'"
          using rc by simp_all
        have hh: "h2 @ ext' = h @ (ext @ iext @ ext')" by (simp add: h2_def h1_def)
        have "set (elems (h2 @ ext') (fst p')) \<subseteq> set (elems h cc)"
          using k(3) sub2 by blast
        moreover have "cc \<le> fst p'" using q(6) j(4) k(4) by simp
        ultimately show ?thesis
          using k(1,2) Inr \<open>sort_pairs_heap (pr # ps) h cc m =
              ((res', (l @ il) @ l'), h @ (ext @ iext @ ext'))\<close>
            \<open>sort_pairs (pr # ps) (denote h cc) m =
              prepend (l @ il) (sort_pairs ps (denote h2 cc2) m)\<close>
          unfolding hh
          by (intro exI[of _ res'] exI[of _ "(l @ il) @ l'"] exI[of _ "ext @ iext @ ext'"])
            (simp add: prepend_def)
      qed
    qed
  qed
qed

lemma is_record_value:
  "is_record h r \<Longrightarrow> lookup h r = Some (PyRecord (record_value h r))"
  by (auto simp: is_record_def record_value_def split: option.splits pyobj.splits)

lemma deepcopy_items_copies:
  assumes "\<forall>r\<in>set rs. is_record h r"
    and "\<forall>p\<in>set memo. is_record h (fst p) \<and> is_record h (snd p) \<and>
           record_value h (snd p) = record_value h (fst p) \<and> n0 \<le> snd p"
    and "n0 \<le> length h"
  shows "\<exists>rs' ext. deepcopy_items h memo rs = Some (rs', h @ ext) \<and>
           (\<forall>r'\<in>set rs'. is_record (h @ ext) r') \<and>
           map (record_value (h @ ext)) rs' = map (record_value h) rs \<and>
           (\<forall>r'\<in>set rs'. n0 \<le> r' \<or> atomic (record_value (h @ ext) r'))"
  using assms
proof (induction rs arbitrary: h memo)
  case Nil
  then show ?case by (intro exI[of _ "[]"]) simp
next
  case (Cons r rs)
  have rr: "is_record h r" and rest: "\<forall>r\<in>set rs. is_record h r" using Cons.prems(1) by simp_all
  have rb: "r < length h" using rr by (rule is_record_bound)
  define v where "v = record_value h r"
  have lk: "lookup h r = Some (PyRecord v)" unfolding v_def using rr by (rule is_record_value)
  show ?case
  proof (cases "map_of memo r")
    case (Some r')
    then have "(r, r') \<in> set memo" by (rule map_of_SomeD)
    then have m: "is_record h r'" "record_value h r' = v" "n0 \<le> r'"
      using Cons.prems(2) v_def by auto
    from Cons.IH[OF rest Cons.prems(2,3)]
    obtain rs' ext where i: "deepcopy_items h memo rs = Some (rs', h @ ext)"
      "\<forall>r'\<in>set rs'. is_record (h @ ext) r'"
      "map (record_value (h @ ext)) rs' = map (record_value h) rs"
      "\<forall>r'\<in>set rs'. n0 \<le> r' \<or> atomic (record_value (h @ ext) r')" by blast
    have "record_value (h @ ext) r' = v"
      using m(1,2) is_record_bound record_value_append by metis
    then show ?thesis
      using i m is_record_append[OF m(1), of ext] Some v_def
      by (intro exI[of _ "r' # rs'"] exI[of _ ext]) simp
  next
    case None
    show ?thesis
    proof (cases "atomic v")
      case True
      from Cons.IH[OF rest Cons.prems(2,3)]
      obtain rs' ext where i: "deepcopy_items h memo rs = Some (rs', h @ ext)"
        "\<forall>r'\<in>set rs'. is_record (h @ ext) r'"
        "map (record_value (h @ ext)) rs' = map (record_value h) rs"
        "\<forall>r'\<in>set rs'. n0 \<le> r' \<or> atomic (record_value (h @ ext) r')" by blast
      have "record_value (h @ ext) r = v" using rb v_def by (simp add: record_value_append)
      then show ?thesis
        using i None lk True is_record_append[OF rr, of ext] v_def
        by (intro exI[of _ "r # rs'"] exI[of _ ext]) simp
    next
      case False
      define h1 where "h1 = h @ [PyRecord v]"
      have new: "is_record h1 (length h)" "record_value h1 (length h) = v"
        by (simp_all add: h1_def is_record_def record_value_def lookup_new)
      have rest1: "\<forall>r\<in>set rs. is_record h1 r"
        using rest is_record_append unfolding h1_def by blast
      have memo1: "\<forall>p\<in>set ((r, length h) # memo). is_record h1 (fst p) \<and>
          is_record h1 (snd p) \<and> record_value h1 (snd p) = record_value h1 (fst p) \<and>
          n0 \<le> snd p"
      proof
        fix p assume "p \<in> set ((r, length h) # memo)"
        then consider "p = (r, length h)" | "p \<in> set memo" by auto
        then show "is_record h1 (fst p) \<and> is_record h1 (snd p) \<and>
            record_value h1 (snd p) = record_value h1 (fst p) \<and> n0 \<le> snd p"
        proof cases
          case 1
          have "record_value h1 r = v" using rb v_def by (simp add: h1_def record_value_append)
          then show ?thesis
            using 1 new is_record_append[OF rr, of "[PyRecord v]"] Cons.prems(3)
            by (simp add: h1_def)
        next
          case 2
          then have o: "is_record h (fst p)" "is_record h (snd p)"
            "record_value h (snd p) = record_value h (fst p)" "n0 \<le> snd p"
            using Cons.prems(2) by auto
          have "record_value h1 (fst p) = record_value h (fst p)"
            "record_value h1 (snd p) = record_value h (snd p)"
            using o(1,2) is_record_bound by (simp_all add: h1_def record_value_append)
          then show ?thesis
            using o is_record_append unfolding h1_def by auto
        qed
      qed
      have n1: "n0 \<le> length h1" using Cons.prems(3) by (simp add: h1_def)
      from Cons.IH[OF rest1 memo1 n1]
      obtain rs' ext where i: "deepcopy_items h1 ((r, length h) # memo) rs = Some (rs', h1 @ ext)"
        "\<forall>r'\<in>set rs'. is_record (h1 @ ext) r'"
        "map (record_value (h1 @ ext)) rs' = map (record_value h1) rs"
        "\<forall>r'\<in>set rs'. n0 \<le> r' \<or> atomic (record_value (h1 @ ext) r')" by blast
      have hh: "h1 @ ext = h @ (PyRecord v # ext)" by (simp add: h1_def)
      have vals: "map (record_value h1) rs = map (record_value h) rs"
        using rest is_record_bound by (auto simp: h1_def record_value_append)
      have "length h < length h1" by (simp add: h1_def)
      then have nv: "record_value (h1 @ ext) (length h) = v"
        using new(2) record_value_append[of "length h" h1 ext] by simp
      have nr: "is_record (h1 @ ext) (length h)" using new(1) by (rule is_record_append)
      have "deepcopy_items h memo (r # rs) = Some (length h # rs', h1 @ ext)"
        using None lk False i(1) by (simp add: alloc_def h1_def)
      then show ?thesis
        using i(2,3,4) vals nv nr Cons.prems(3) v_def unfolding hh
        by (intro exI[of _ "length h # rs'"] exI[of _ "PyRecord v # ext"]) simp
    qed
  qed
qed

lemma deepcopy_list_copies:
  assumes "list_of_records h a"
  shows "\<exists>cc ext. deepcopy_list h a = Some (cc, h @ ext) \<and> length h \<le> cc \<and>
           list_of_records (h @ ext) cc \<and> denote (h @ ext) cc = denote h a \<and>
           (\<forall>r\<in>set (elems (h @ ext) cc).
              length h \<le> r \<or> atomic (record_value (h @ ext) r))"
proof -
  from assms obtain rs where rs: "lookup h a = Some (PyList rs)" "\<forall>r\<in>set rs. is_record h r"
    unfolding list_of_records_iff by blast
  have e: "elems h a = rs" using rs(1) by (simp add: elems_def)
  from deepcopy_items_copies[OF rs(2), of "[]" "length h"]
  obtain rs' ext where i: "deepcopy_items h [] rs = Some (rs', h @ ext)"
    "\<forall>r'\<in>set rs'. is_record (h @ ext) r'"
    "map (record_value (h @ ext)) rs' = map (record_value h) rs"
    "\<forall>r'\<in>set rs'. length h \<le> r' \<or> atomic (record_value (h @ ext) r')" by auto
  define h1 where "h1 = h @ ext"
  define h2 where "h2 = h1 @ [PyList rs']"
  have d: "deepcopy_list h a = Some (length h1, h2)"
    using rs(1) i(1) by (simp add: deepcopy_list_def alloc_def h1_def h2_def)
  have n: "list_of_records h2 (length h1)" "elems h2 (length h1) = rs'"
    "denote h2 (length h1) = map (record_value h1) rs'"
    using new_list_of_records[of rs' h1] i(2) by (simp_all add: h1_def h2_def)
  have v: "\<forall>r\<in>set rs'. record_value h2 r = record_value h1 r"
  proof
    fix r assume "r \<in> set rs'"
    then have "is_record h1 r" using i(2) by (simp add: h1_def)
    then have "r < length h1" by (rule is_record_bound)
    then show "record_value h2 r = record_value h1 r"
      unfolding h2_def by (rule record_value_append)
  qed
  have "denote h2 (length h1) = denote h a"
    unfolding n(3) using i(3) by (simp add: h1_def denote_def e)
  moreover have "\<forall>r\<in>set (elems h2 (length h1)). length h \<le> r \<or> atomic (record_value h2 r)"
    unfolding n(2) using i(4) v by (simp add: h1_def)
  moreover have "h2 = h @ (ext @ [PyList rs'])" by (simp add: h2_def h1_def)
  moreover have "length h \<le> length h1" by (simp add: h1_def)
  ultimately show ?thesis
    using d n(1) by (intro exI[of _ "length h1"] exI[of _ "ext @ [PyList rs']"]) simp
qed

text \<open>
  Claim C10. When the caller passes the address of a list of records, the constructor and
  \<^verbatim>\<open>get_sorted_custom_config\<close> together leave every object the caller had as it was (the
  store afterwards is the store before, followed by new objects), so the caller's
  sequence still denotes the same records; the result and the log are those of the
  engine on the sequence of values; and the list returned is a new object whose
  elements are copies made by the constructor or atomic values, which cannot be mutated.
\<close>

theorem sorted_copy_leaves_caller_objects:
  assumes "list_of_records h a"
  shows "\<exists>res l h'. sorted_copy h a names = Some ((res, l), h') \<and>
     take (length h) h' = h \<and>
     denote h' a = denote h a \<and>
     (case res of
        Inl e \<Rightarrow> get_sorted_custom_config (denote h a) names = (Inl e, l)
      | Inr out \<Rightarrow>
          length h \<le> out \<and> list_of_records h' out \<and>
          get_sorted_custom_config (denote h a) names = (Inr (denote h' out), l) \<and>
          list_all (\<lambda>r. length h \<le> r \<or> atomic (record_value h' r)) (elems h' out))"
proof -
  from deepcopy_list_copies[OF assms]
  obtain cc ext where d: "deepcopy_list h a = Some (cc, h @ ext)" "length h \<le> cc"
    "list_of_records (h @ ext) cc" "denote (h @ ext) cc = denote h a"
    "\<forall>r\<in>set (elems (h @ ext) cc). length h \<le> r \<or> atomic (record_value (h @ ext) r)"
    by blast
  define h1 where "h1 = h @ ext"
  define ps where "ps = zip names (tl names)"
  from sort_pairs_heap_refines[OF d(3), of ps "{}"]
  obtain res l ext' where s: "sort_pairs_heap ps h1 cc {} = ((res, l), h1 @ ext')"
    and sc: "case res of
        Inl e \<Rightarrow> sort_pairs ps (denote h1 cc) {} = (Inl e, l)
      | Inr p \<Rightarrow>
          list_of_records (h1 @ ext') (fst p) \<and>
          sort_pairs ps (denote h1 cc) {} = (Inr (denote (h1 @ ext') (fst p), snd p), l) \<and>
          set (elems (h1 @ ext') (fst p)) \<subseteq> set (elems h1 cc) \<and> cc \<le> fst p"
    unfolding h1_def by blast
  define h' where "h' = h1 @ ext'"
  have hh: "h' = h @ (ext @ ext')" by (simp add: h'_def h1_def)
  have frame: "take (length h) h' = h" unfolding hh by simp
  have den: "denote h' a = denote h a"
    unfolding hh by (rule list_of_records_append(3)[OF assms])
  have dc: "denote h1 cc = denote h a" using d(4) by (simp add: h1_def)
  show ?thesis
  proof (cases res)
    case (Inl e)
    then have "sort_pairs ps (denote h a) {} = (Inl e, l)" using sc dc by simp
    then have "get_sorted_custom_config (denote h a) names = (Inl e, l)"
      by (simp add: get_sorted_custom_config_def ps_def)
    moreover have "sorted_copy h a names = Some ((Inl e, l), h')"
      using d(1) s Inl by (simp add: sorted_copy_def ps_def h1_def h'_def)
    ultimately show ?thesis
      using frame den by (intro exI[of _ "Inl e"] exI[of _ l] exI[of _ h']) simp
  next
    case (Inr p)
    obtain out m' where p: "p = (out, m')" by (cases p) auto
    define l' where "l' = l @ [Info_sorted_groups [g \<leftarrow> names. g \<in> set names - m']]"
    have k: "list_of_records h' out"
      "sort_pairs ps (denote h a) {} = (Inr (denote h' out, m'), l)"
      "set (elems h' out) \<subseteq> set (elems h1 cc)" "cc \<le> out"
      using sc Inr p dc by (simp_all add: h'_def)
    have g: "get_sorted_custom_config (denote h a) names = (Inr (denote h' out), l')"
      using k(2) by (simp add: get_sorted_custom_config_def ps_def l'_def)
    have sr: "sorted_copy h a names = Some ((Inr out, l'), h')"
      using d(1) s Inr p by (simp add: sorted_copy_def ps_def h1_def h'_def l'_def)
    have fresh: "list_all (\<lambda>r. length h \<le> r \<or> atomic (record_value h' r)) (elems h' out)"
      unfolding list_all_iff
    proof
      fix r assume "r \<in> set (elems h' out)"
      then have r1: "r \<in> set (elems h1 cc)" using k(3) by blast
      then have c: "length h \<le> r \<or> atomic (record_value h1 r)" using d(5) by (simp add: h1_def)
      have "is_record h1 r" using list_of_records_elems(2)[OF d(3)] r1 by (simp add: h1_def)
      then have "record_value h' r = record_value h1 r"
        using is_record_bound by (simp add: h'_def record_value_append)
      then show "length h \<le> r \<or> atomic (record_value h' r)" using c by simp
    qed
    have ob: "length h \<le> out" using d(2) k(4) by simp
    show ?thesis
      using sr frame den ob k(1) g fresh
      by (intro exI[of _ "Inr out"] exI[of _ l'] exI[of _ h']) simp
  qed
qed

lemmas heap_defs = sorted_copy_def deepcopy_list_def pop_group_2_heap_def
  insert_group_2_after_group_1_heap_def py_slice_def py_concat_def alloc_def lookup_def
  elems_def record_value_def denote_def

lemma sorted_copy_example:
  "sorted_copy heap_example 2 [''y'', ''x''] =
     Some ((Inr 13, [Info_sorted_groups [''y'', ''x'']]), heap_example_after)"
  by (simp add: heap_defs sorter_defs heap_example_def heap_example_after_def x1_def y1_def)

theorem sorted_copy_leaves_caller_objects_witness:
  "sorted_copy heap_example 2 [''y'', ''x''] =
     Some ((Inr 13, [Info_sorted_groups [''y'', ''x'']]), heap_example_after) \<and>
   take (length heap_example) heap_example_after = heap_example \<and>
   denote heap_example_after 2 = denote heap_example 2 \<and>
   length heap_example \<le> 13 \<and>
   list_of_records heap_example_after 13 \<and>
   get_sorted_custom_config (denote heap_example 2) [''y'', ''x''] =
     (Inr (denote heap_example_after 13), [Info_sorted_groups [''y'', ''x'']]) \<and>
   list_all (\<lambda>r. length heap_example \<le> r \<or> atomic (record_value heap_example_after r))
     (elems heap_example_after 13)"
proof -
  have h: "list_of_records heap_example 2"
    by (simp add: list_of_records_def lookup_def heap_example_def)
  from sorted_copy_leaves_caller_objects[OF h, of "[''y'', ''x'']"]
  show ?thesis unfolding sorted_copy_example by simp
qed

end
